theory Spec2Isabelle
  imports Main "HOL-Library.Word"
begin

unbundle bit_operations_syntax

section \<open>The data model of \<open>sul::dynamic_bitset\<close>\<close>

text \<open>
  The class template \<open>dynamic_bitset<Block, Allocator>\<close> of
  \<open>include/sul/dynamic_bitset.hpp\<close> holds a \<open>std::vector<Block>\<close> and the number of bits.
  \<open>Block\<close> is an unsigned integer type of \<open>bits_per_block\<close> binary digits: it is the word type
  \<open>'a word\<close>, and \<open>bits_per_block\<close> is \<open>LENGTH('a)\<close>.  Shifts, complements and the arithmetic of
  \<open>bit_mask\<close> are those of the word type, which is what the program computes after its results
  are converted back to \<open>block_type\<close>.  Every shift amount the program passes is below the
  block width.

  \<open>size_type\<close> is \<open>size_t\<close>.  Positions and sizes are natural numbers here: a vector of
  \<open>2 ^ 64\<close> bits cannot be stored, so no size computation of the program wraps around.  The
  sentinel \<open>npos\<close> is the greatest value of a 64-bit \<open>size_t\<close>.

  The allocator and the capacity of the vector are not part of the state: no operation below
  reads them, except the two assertions of the shift helpers, see \<open>capacity\<close>.

  A precondition that the program checks with \<open>assert\<close> is a branch of the model: an operation
  with an assertion returns an \<open>option\<close>, and \<open>None\<close> is the failed assertion.  Reads of
  \<open>m_blocks[i]\<close> are \<open>m_blocks ! i\<close>; the theorems below are stated for bitsets that satisfy
  \<open>check_consistency\<close>, where every index the program reads is in range.
\<close>

record (overloaded) ('a::len) dynamic_bitset =
  m_blocks :: "'a word list"
  m_bits_number :: nat

definition npos :: nat where
  "npos = 2 ^ 64 - 1"

definition zero_block :: "'a::len word" where
  "zero_block = 0"

definition one_block :: "'a::len word" where
  "one_block = NOT zero_block"

text \<open>The static helpers that return a \<open>size_type\<close> take \<open>bits_per_block\<close> as their first
  argument \<open>W\<close>; the member functions pass \<open>LENGTH('a)\<close>.\<close>

definition block_last_bit_index :: "nat \<Rightarrow> nat" where
  "block_last_bit_index W = W - 1"

definition blocks_required :: "nat \<Rightarrow> nat \<Rightarrow> nat" where
  "blocks_required W nbits = nbits div W + (if nbits mod W > 0 then 1 else 0)"

definition block_index :: "nat \<Rightarrow> nat \<Rightarrow> nat" where
  "block_index W pos = pos div W"

definition bit_index :: "nat \<Rightarrow> nat \<Rightarrow> nat" where
  "bit_index W pos = pos mod W"

definition bit_mask :: "nat \<Rightarrow> 'a::len word" where
  "bit_mask pos = push_bit (bit_index LENGTH('a) pos) 1"

definition bit_mask_range :: "nat \<Rightarrow> nat \<Rightarrow> 'a::len word" where
  "bit_mask_range first_pos last_pos =
     (let first_bit = bit_index LENGTH('a) first_pos;
          last_bit = bit_index LENGTH('a) last_pos
      in if last_bit = block_last_bit_index LENGTH('a)
         then push_bit first_bit one_block
         else (push_bit (last_bit + 1) 1 - 1) XOR (push_bit first_bit 1 - 1))"

definition set_block_bits :: "'a::len word \<Rightarrow> nat \<Rightarrow> nat \<Rightarrow> bool \<Rightarrow> 'a word" where
  "set_block_bits block first_pos last_pos val =
     (if val then block OR bit_mask_range first_pos last_pos
      else block AND NOT (bit_mask_range first_pos last_pos))"

definition flip_block_bits :: "'a::len word \<Rightarrow> nat \<Rightarrow> nat \<Rightarrow> 'a word" where
  "flip_block_bits block first_pos last_pos = block XOR bit_mask_range first_pos last_pos"

definition bitset_size :: "'a::len dynamic_bitset \<Rightarrow> nat" where
  "bitset_size v = m_bits_number v"

definition num_blocks :: "'a::len dynamic_bitset \<Rightarrow> nat" where
  "num_blocks v = length (m_blocks v)"

definition bitset_empty :: "'a::len dynamic_bitset \<Rightarrow> bool" where
  "bitset_empty v = (bitset_size v = 0)"

text \<open>\<open>capacity()\<close> is \<open>m_blocks.capacity() * bits_per_block\<close>.  The capacity of a vector is at
  least its length and otherwise up to the allocator; the model takes the least value it can
  have, so an assertion \<open>shift < capacity()\<close> that holds in the model holds in the program.\<close>

definition capacity :: "'a::len dynamic_bitset \<Rightarrow> nat" where
  "capacity v = length (m_blocks v) * LENGTH('a)"

definition last_block :: "'a::len dynamic_bitset \<Rightarrow> 'a word" where
  "last_block v = m_blocks v ! (length (m_blocks v) - 1)"

definition extra_bits_number :: "'a::len dynamic_bitset \<Rightarrow> nat" where
  "extra_bits_number v = bit_index LENGTH('a) (m_bits_number v)"

definition unused_bits_number :: "'a::len dynamic_bitset \<Rightarrow> nat" where
  "unused_bits_number v = LENGTH('a) - extra_bits_number v"

definition sanitize :: "'a::len dynamic_bitset \<Rightarrow> 'a dynamic_bitset" where
  "sanitize v =
     (let shift = m_bits_number v mod LENGTH('a)
      in if shift > 0
         then v\<lparr>m_blocks := (m_blocks v)[length (m_blocks v) - 1 :=
                   last_block v AND NOT (push_bit shift one_block)]\<rparr>
         else v)"

definition check_unused_bits :: "'a::len dynamic_bitset \<Rightarrow> bool" where
  "check_unused_bits v =
     (let extra_bits = extra_bits_number v
      in if extra_bits > 0
         then last_block v AND push_bit extra_bits one_block = zero_block
         else True)"

definition check_size :: "'a::len dynamic_bitset \<Rightarrow> bool" where
  "check_size v = (blocks_required LENGTH('a) (bitset_size v) = length (m_blocks v))"

definition check_consistency :: "'a::len dynamic_bitset \<Rightarrow> bool" where
  "check_consistency v = (check_unused_bits v \<and> check_size v)"


section \<open>Single bits\<close>

definition test :: "'a::len dynamic_bitset \<Rightarrow> nat \<Rightarrow> bool option" where
  "test v pos =
     (if \<not> pos < bitset_size v then None
      else Some (m_blocks v ! block_index LENGTH('a) pos AND bit_mask pos \<noteq> zero_block))"

text \<open>\<open>set(size_type pos, bool value)\<close>, \<open>reset(size_type pos)\<close> and \<open>flip(size_type pos)\<close>.\<close>

definition set_pos :: "'a::len dynamic_bitset \<Rightarrow> nat \<Rightarrow> bool \<Rightarrow> 'a dynamic_bitset option" where
  "set_pos v pos val =
     (if \<not> pos < bitset_size v then None
      else let i = block_index LENGTH('a) pos
           in if val then Some (v\<lparr>m_blocks := (m_blocks v)[i := m_blocks v ! i OR bit_mask pos]\<rparr>)
              else Some (v\<lparr>m_blocks := (m_blocks v)[i := m_blocks v ! i AND NOT (bit_mask pos)]\<rparr>))"

definition reset_pos :: "'a::len dynamic_bitset \<Rightarrow> nat \<Rightarrow> 'a dynamic_bitset option" where
  "reset_pos v pos = set_pos v pos False"

definition flip_pos :: "'a::len dynamic_bitset \<Rightarrow> nat \<Rightarrow> 'a dynamic_bitset option" where
  "flip_pos v pos =
     (if \<not> pos < bitset_size v then None
      else let i = block_index LENGTH('a) pos
           in Some (v\<lparr>m_blocks := (m_blocks v)[i := m_blocks v ! i XOR bit_mask pos]\<rparr>))"

definition test_set :: "'a::len dynamic_bitset \<Rightarrow> nat \<Rightarrow> bool \<Rightarrow> (bool \<times> 'a dynamic_bitset) option" where
  "test_set v pos val =
     (case test v pos of
        None \<Rightarrow> None
      | Some result \<Rightarrow>
          if result \<noteq> val then map_option (\<lambda>v'. (result, v')) (set_pos v pos val)
          else Some (result, v))"

section \<open>Whole-vector and range updates\<close>

text \<open>\<open>set()\<close>, \<open>reset()\<close> and \<open>flip()\<close>: \<open>std::fill\<close> and \<open>std::transform\<close> over all blocks.\<close>

definition set_all :: "'a::len dynamic_bitset \<Rightarrow> 'a dynamic_bitset" where
  "set_all v = sanitize (v\<lparr>m_blocks := map (\<lambda>_. one_block) (m_blocks v)\<rparr>)"

definition reset_all :: "'a::len dynamic_bitset \<Rightarrow> 'a dynamic_bitset" where
  "reset_all v = v\<lparr>m_blocks := map (\<lambda>_. zero_block) (m_blocks v)\<rparr>"

definition flip_all :: "'a::len dynamic_bitset \<Rightarrow> 'a dynamic_bitset" where
  "flip_all v = sanitize (v\<lparr>m_blocks := map (\<lambda>b. NOT b) (m_blocks v)\<rparr>)"

text \<open>\<open>set(pos, len, value)\<close>.  The loop over the full blocks runs \<open>i\<close> from
  \<open>first_full_block\<close> to \<open>last_full_block\<close> inclusive.\<close>

definition set_range :: "'a::len dynamic_bitset \<Rightarrow> nat \<Rightarrow> nat \<Rightarrow> bool \<Rightarrow> 'a dynamic_bitset option" where
  "set_range v pos len val =
     (if \<not> pos < bitset_size v then None
      else if len = 0 then Some v
      else if \<not> pos + len - 1 < bitset_size v then None
      else
        let first_block = block_index LENGTH('a) pos;
            last_block_i = block_index LENGTH('a) (pos + len - 1);
            first_bit_index = bit_index LENGTH('a) pos;
            last_bit_index = bit_index LENGTH('a) (pos + len - 1);
            bs = m_blocks v
        in if first_block = last_block_i
           then Some (v\<lparr>m_blocks := bs[first_block :=
                  set_block_bits (bs ! first_block) first_bit_index last_bit_index val]\<rparr>)
           else
             let first_full_block = (if first_bit_index \<noteq> 0 then first_block + 1 else first_block);
                 bs1 = (if first_bit_index \<noteq> 0
                        then bs[first_block := set_block_bits (bs ! first_block) first_bit_index
                                  (block_last_bit_index LENGTH('a)) val]
                        else bs);
                 last_full_block = (if last_bit_index \<noteq> block_last_bit_index LENGTH('a)
                                    then last_block_i - 1 else last_block_i);
                 bs2 = (if last_bit_index \<noteq> block_last_bit_index LENGTH('a)
                        then bs1[last_block_i := set_block_bits (bs1 ! last_block_i) 0 last_bit_index val]
                        else bs1);
                 full_block = (if val then one_block else zero_block)
             in Some (v\<lparr>m_blocks :=
                  fold (\<lambda>i b. b[i := full_block]) [first_full_block..<last_full_block + 1] bs2\<rparr>))"

definition reset_range :: "'a::len dynamic_bitset \<Rightarrow> nat \<Rightarrow> nat \<Rightarrow> 'a dynamic_bitset option" where
  "reset_range v pos len = set_range v pos len False"

definition flip_range :: "'a::len dynamic_bitset \<Rightarrow> nat \<Rightarrow> nat \<Rightarrow> 'a dynamic_bitset option" where
  "flip_range v pos len =
     (if \<not> pos < bitset_size v then None
      else if len = 0 then Some v
      else if \<not> pos + len - 1 < bitset_size v then None
      else
        let first_block = block_index LENGTH('a) pos;
            last_block_i = block_index LENGTH('a) (pos + len - 1);
            first_bit_index = bit_index LENGTH('a) pos;
            last_bit_index = bit_index LENGTH('a) (pos + len - 1);
            bs = m_blocks v
        in if first_block = last_block_i
           then Some (v\<lparr>m_blocks := bs[first_block :=
                  flip_block_bits (bs ! first_block) first_bit_index last_bit_index]\<rparr>)
           else
             let first_full_block = (if first_bit_index \<noteq> 0 then first_block + 1 else first_block);
                 bs1 = (if first_bit_index \<noteq> 0
                        then bs[first_block := flip_block_bits (bs ! first_block) first_bit_index
                                  (block_last_bit_index LENGTH('a))]
                        else bs);
                 last_full_block = (if last_bit_index \<noteq> block_last_bit_index LENGTH('a)
                                    then last_block_i - 1 else last_block_i);
                 bs2 = (if last_bit_index \<noteq> block_last_bit_index LENGTH('a)
                        then bs1[last_block_i := flip_block_bits (bs1 ! last_block_i) 0 last_bit_index]
                        else bs1)
             in Some (v\<lparr>m_blocks :=
                  fold (\<lambda>i b. b[i := NOT (b ! i)]) [first_full_block..<last_full_block + 1] bs2\<rparr>))"


section \<open>Growing and shrinking\<close>

text \<open>The statement \<open>assert(check_consistency())\<close> that ends \<open>resize\<close>, \<open>push_back\<close>,
  \<open>pop_back\<close> and the \<open>append\<close> overloads.\<close>

definition assert_check_consistency :: "'a::len dynamic_bitset \<Rightarrow> 'a dynamic_bitset option" where
  "assert_check_consistency v = (if check_consistency v then Some v else None)"

text \<open>\<open>std::vector::resize(n, x)\<close>: the first \<open>n\<close> elements are kept, missing ones are copies
  of \<open>x\<close>.\<close>

definition vector_resize :: "'b list \<Rightarrow> nat \<Rightarrow> 'b \<Rightarrow> 'b list" where
  "vector_resize xs n x = take n xs @ replicate (n - length xs) x"

definition resize :: "'a::len dynamic_bitset \<Rightarrow> nat \<Rightarrow> bool \<Rightarrow> 'a dynamic_bitset option" where
  "resize v nbits val =
     (if nbits = m_bits_number v then Some v
      else
        let old_num_blocks = num_blocks v;
            new_num_blocks = blocks_required LENGTH('a) nbits;
            init_value = (if val then one_block else zero_block);
            v1 = (if new_num_blocks \<noteq> old_num_blocks
                  then v\<lparr>m_blocks := vector_resize (m_blocks v) new_num_blocks init_value\<rparr>
                  else v);
            v2 = (if val \<and> nbits > m_bits_number v1 \<and> old_num_blocks > 0
                  then let extra_bits = extra_bits_number v1
                       in if extra_bits > 0
                          then v1\<lparr>m_blocks := (m_blocks v1)[old_num_blocks - 1 :=
                                 m_blocks v1 ! (old_num_blocks - 1) OR push_bit extra_bits init_value]\<rparr>
                          else v1
                  else v1)
        in assert_check_consistency (sanitize (v2\<lparr>m_bits_number := nbits\<rparr>)))"

definition clear :: "'a::len dynamic_bitset \<Rightarrow> 'a dynamic_bitset" where
  "clear v = v\<lparr>m_blocks := [], m_bits_number := 0\<rparr>"

definition push_back :: "'a::len dynamic_bitset \<Rightarrow> bool \<Rightarrow> 'a dynamic_bitset option" where
  "push_back v val =
     (let new_last_bit = m_bits_number v;
          v1 = v\<lparr>m_bits_number := m_bits_number v + 1\<rparr>;
          r = (if m_bits_number v1 \<le> length (m_blocks v1) * LENGTH('a)
               then (if val then set_pos v1 new_last_bit val else Some v1)
               else Some (v1\<lparr>m_blocks := m_blocks v1 @ [of_bool val]\<rparr>))
      in case r of
           None \<Rightarrow> None
         | Some v2 \<Rightarrow>
             if test v2 new_last_bit \<noteq> Some val then None else assert_check_consistency v2)"

definition pop_back :: "'a::len dynamic_bitset \<Rightarrow> 'a dynamic_bitset option" where
  "pop_back v =
     (if bitset_empty v then Some v
      else
        let v1 = v\<lparr>m_bits_number := m_bits_number v - 1\<rparr>
        in if length (m_blocks v1) > blocks_required LENGTH('a) (m_bits_number v1)
           then (let v2 = v1\<lparr>m_blocks := butlast (m_blocks v1)\<rparr>
                 in if extra_bits_number v2 \<noteq> 0 then None else assert_check_consistency v2)
           else assert_check_consistency (sanitize v1))"

text \<open>\<open>append(block_type block)\<close>.\<close>

definition append :: "'a::len dynamic_bitset \<Rightarrow> 'a word \<Rightarrow> 'a dynamic_bitset option" where
  "append v block =
     (let extra_bits = extra_bits_number v;
          bs = (if extra_bits = 0 then m_blocks v @ [block]
                else (m_blocks v)[length (m_blocks v) - 1 := last_block v OR push_bit extra_bits block]
                       @ [drop_bit (LENGTH('a) - extra_bits) block])
      in assert_check_consistency
           (v\<lparr>m_blocks := bs, m_bits_number := m_bits_number v + LENGTH('a)\<rparr>))"

text \<open>\<open>append(BlockInputIterator first, BlockInputIterator last)\<close>: the range is the list
  \<open>blocks\<close>.  The state of the \<open>while\<close> loop is the vector, the bit count and the local
  variable \<open>block\<close>.\<close>

definition append_range :: "'a::len dynamic_bitset \<Rightarrow> 'a word list \<Rightarrow> 'a dynamic_bitset option" where
  "append_range v blocks =
     (if blocks = [] then Some v
      else
        let extra_bits = extra_bits_number v;
            unused_bits = unused_bits_number v
        in if extra_bits = 0
           then assert_check_consistency
                  (v\<lparr>m_blocks := m_blocks v @ blocks,
                     m_bits_number := m_bits_number v + length blocks * LENGTH('a)\<rparr>)
           else
             let bs0 = (m_blocks v)[length (m_blocks v) - 1 :=
                          last_block v OR push_bit extra_bits (hd blocks)];
                 block0 = drop_bit unused_bits (hd blocks);
                 (bs1, n1, block1) =
                    fold (\<lambda>b (bs, n, block).
                            (bs @ [block OR push_bit extra_bits b], n + LENGTH('a),
                             drop_bit unused_bits b))
                      (tl blocks) (bs0, m_bits_number v, block0)
             in assert_check_consistency
                  (v\<lparr>m_blocks := bs1 @ [block1], m_bits_number := n1 + LENGTH('a)\<rparr>))"

text \<open>\<open>append(std::initializer_list<block_type> blocks)\<close>.\<close>

definition append_list :: "'a::len dynamic_bitset \<Rightarrow> 'a word list \<Rightarrow> 'a dynamic_bitset option" where
  "append_list v blocks = (if length blocks = 0 then Some v else append_range v blocks)"

section \<open>Bitwise assignment operators\<close>

definition operator_and_assign ::
  "'a::len dynamic_bitset \<Rightarrow> 'a dynamic_bitset \<Rightarrow> 'a dynamic_bitset option" where
  "operator_and_assign v rhs =
     (if bitset_size v \<noteq> bitset_size rhs then None
      else Some (v\<lparr>m_blocks :=
             fold (\<lambda>i bs. bs[i := bs ! i AND m_blocks rhs ! i]) [0..<length (m_blocks v)] (m_blocks v)\<rparr>))"

definition operator_or_assign ::
  "'a::len dynamic_bitset \<Rightarrow> 'a dynamic_bitset \<Rightarrow> 'a dynamic_bitset option" where
  "operator_or_assign v rhs =
     (if bitset_size v \<noteq> bitset_size rhs then None
      else Some (v\<lparr>m_blocks :=
             fold (\<lambda>i bs. bs[i := bs ! i OR m_blocks rhs ! i]) [0..<length (m_blocks v)] (m_blocks v)\<rparr>))"

definition operator_xor_assign ::
  "'a::len dynamic_bitset \<Rightarrow> 'a dynamic_bitset \<Rightarrow> 'a dynamic_bitset option" where
  "operator_xor_assign v rhs =
     (if bitset_size v \<noteq> bitset_size rhs then None
      else Some (v\<lparr>m_blocks :=
             fold (\<lambda>i bs. bs[i := bs ! i XOR m_blocks rhs ! i]) [0..<length (m_blocks v)] (m_blocks v)\<rparr>))"

definition operator_minus_assign ::
  "'a::len dynamic_bitset \<Rightarrow> 'a dynamic_bitset \<Rightarrow> 'a dynamic_bitset option" where
  "operator_minus_assign v rhs =
     (if bitset_size v \<noteq> bitset_size rhs then None
      else Some (v\<lparr>m_blocks :=
             fold (\<lambda>i bs. bs[i := bs ! i AND NOT (m_blocks rhs ! i)]) [0..<length (m_blocks v)]
               (m_blocks v)\<rparr>))"


section \<open>Shifts\<close>

text \<open>\<open>std::fill(first, last, x)\<close> on the index range \<open>[i, j)\<close> of a vector.\<close>

definition vector_fill :: "'b list \<Rightarrow> nat \<Rightarrow> nat \<Rightarrow> 'b \<Rightarrow> 'b list" where
  "vector_fill xs i j x = fold (\<lambda>k ys. ys[k := x]) [i..<j] xs"

text \<open>Both helpers work in place.  The loops of \<open>apply_left_shift\<close> count \<open>i\<close> down, so they
  are folds over the reversed index range; every step reads the vector as the steps before
  left it.\<close>

definition apply_left_shift :: "'a::len dynamic_bitset \<Rightarrow> nat \<Rightarrow> 'a dynamic_bitset option" where
  "apply_left_shift v shift =
     (if \<not> shift > 0 then None
      else if \<not> shift < capacity v then None
      else
        let blocks_shift = shift div LENGTH('a);
            bits_offset = shift mod LENGTH('a);
            n = length (m_blocks v);
            bs1 = (if bits_offset = 0
                   then fold (\<lambda>i bs. bs[i := bs ! (i - blocks_shift)])
                          (rev [blocks_shift..<n]) (m_blocks v)
                   else
                     let reverse_bits_offset = LENGTH('a) - bits_offset;
                         bs = fold (\<lambda>i bs. bs[i := push_bit bits_offset (bs ! (i - blocks_shift))
                                        OR drop_bit reverse_bits_offset (bs ! (i - blocks_shift - 1))])
                                (rev [blocks_shift + 1..<n]) (m_blocks v)
                     in bs[blocks_shift := push_bit bits_offset (bs ! 0)])
        in Some (v\<lparr>m_blocks := vector_fill bs1 0 blocks_shift zero_block\<rparr>))"

definition apply_right_shift :: "'a::len dynamic_bitset \<Rightarrow> nat \<Rightarrow> 'a dynamic_bitset option" where
  "apply_right_shift v shift =
     (if \<not> shift > 0 then None
      else if \<not> shift < capacity v then None
      else
        let blocks_shift = shift div LENGTH('a);
            bits_offset = shift mod LENGTH('a);
            n = length (m_blocks v);
            last_block_to_shift = n - blocks_shift - 1;
            bs1 = (if bits_offset = 0
                   then fold (\<lambda>i bs. bs[i := bs ! (i + blocks_shift)])
                          [0..<last_block_to_shift + 1] (m_blocks v)
                   else
                     let reverse_bits_offset = LENGTH('a) - bits_offset;
                         bs = fold (\<lambda>i bs. bs[i := drop_bit bits_offset (bs ! (i + blocks_shift))
                                        OR push_bit reverse_bits_offset (bs ! (i + blocks_shift + 1))])
                                [0..<last_block_to_shift] (m_blocks v)
                     in bs[last_block_to_shift := drop_bit bits_offset (bs ! (n - 1))])
        in Some (v\<lparr>m_blocks := vector_fill bs1 (last_block_to_shift + 1) n zero_block\<rparr>))"

definition operator_shl_assign :: "'a::len dynamic_bitset \<Rightarrow> nat \<Rightarrow> 'a dynamic_bitset option" where
  "operator_shl_assign v shift =
     (if shift \<noteq> 0
      then (if shift \<ge> m_bits_number v then Some (reset_all v)
            else map_option sanitize (apply_left_shift v shift))
      else Some v)"

definition operator_shr_assign :: "'a::len dynamic_bitset \<Rightarrow> nat \<Rightarrow> 'a dynamic_bitset option" where
  "operator_shr_assign v shift =
     (if shift \<noteq> 0
      then (if shift \<ge> m_bits_number v then Some (reset_all v)
            else apply_right_shift v shift)
      else Some v)"

text \<open>The operators that return a new bitset copy \<open>*this\<close> and apply the assignment operator
  to the copy.\<close>

definition operator_shl :: "'a::len dynamic_bitset \<Rightarrow> nat \<Rightarrow> 'a dynamic_bitset option" where
  "operator_shl v shift = operator_shl_assign v shift"

definition operator_shr :: "'a::len dynamic_bitset \<Rightarrow> nat \<Rightarrow> 'a dynamic_bitset option" where
  "operator_shr v shift = operator_shr_assign v shift"

definition operator_not :: "'a::len dynamic_bitset \<Rightarrow> 'a dynamic_bitset" where
  "operator_not v = flip_all v"

definition operator_and ::
  "'a::len dynamic_bitset \<Rightarrow> 'a dynamic_bitset \<Rightarrow> 'a dynamic_bitset option" where
  "operator_and lhs rhs = operator_and_assign lhs rhs"

definition operator_or ::
  "'a::len dynamic_bitset \<Rightarrow> 'a dynamic_bitset \<Rightarrow> 'a dynamic_bitset option" where
  "operator_or lhs rhs = operator_or_assign lhs rhs"

definition operator_xor ::
  "'a::len dynamic_bitset \<Rightarrow> 'a dynamic_bitset \<Rightarrow> 'a dynamic_bitset option" where
  "operator_xor lhs rhs = operator_xor_assign lhs rhs"

definition operator_minus ::
  "'a::len dynamic_bitset \<Rightarrow> 'a dynamic_bitset \<Rightarrow> 'a dynamic_bitset option" where
  "operator_minus lhs rhs = operator_minus_assign lhs rhs"

section \<open>Queries\<close>

fun any_loop :: "'a::len word list \<Rightarrow> bool" where
  "any_loop [] = False"
| "any_loop (block # blocks) = (if block \<noteq> zero_block then True else any_loop blocks)"

definition any_bit :: "'a::len dynamic_bitset \<Rightarrow> bool" where
  "any_bit v = any_loop (m_blocks v)"

definition none :: "'a::len dynamic_bitset \<Rightarrow> bool" where
  "none v = (\<not> any_bit v)"

fun all_loop :: "'a::len word list \<Rightarrow> bool" where
  "all_loop [] = True"
| "all_loop (block # blocks) = (if block \<noteq> one_block then False else all_loop blocks)"

definition all_bits :: "'a::len dynamic_bitset \<Rightarrow> bool" where
  "all_bits v =
     (if bitset_empty v then True
      else if extra_bits_number v = 0 then all_loop (m_blocks v)
      else if \<not> all_loop (take (length (m_blocks v) - 1) (m_blocks v)) then False
      else if last_block v \<noteq> drop_bit (unused_bits_number v) one_block then False
      else True)"

text \<open>\<open>is_subset_of\<close>, \<open>is_proper_subset_of\<close> and \<open>intersects\<close> run \<open>i\<close> upwards and return
  from inside the loop; the functions below take the index \<open>i\<close> and the number \<open>k\<close> of
  iterations left.\<close>

fun is_subset_of_loop :: "'a::len word list \<Rightarrow> 'a word list \<Rightarrow> nat \<Rightarrow> nat \<Rightarrow> bool" where
  "is_subset_of_loop xs ys i 0 = True"
| "is_subset_of_loop xs ys i (Suc k) =
     (if xs ! i AND NOT (ys ! i) \<noteq> zero_block then False
      else is_subset_of_loop xs ys (i + 1) k)"

definition is_subset_of :: "'a::len dynamic_bitset \<Rightarrow> 'a dynamic_bitset \<Rightarrow> bool option" where
  "is_subset_of v bitset =
     (if bitset_size v \<noteq> bitset_size bitset then None
      else Some (is_subset_of_loop (m_blocks v) (m_blocks bitset) 0 (length (m_blocks v))))"

fun is_proper_subset_of_loop ::
  "'a::len word list \<Rightarrow> 'a word list \<Rightarrow> nat \<Rightarrow> nat \<Rightarrow> bool \<Rightarrow> bool" where
  "is_proper_subset_of_loop xs ys i 0 is_proper = is_proper"
| "is_proper_subset_of_loop xs ys i (Suc k) is_proper =
     (let self_block = xs ! i; other_block = ys ! i
      in if self_block AND NOT other_block \<noteq> zero_block then False
         else is_proper_subset_of_loop xs ys (i + 1) k
                (if NOT self_block AND other_block \<noteq> zero_block then True else is_proper))"

definition is_proper_subset_of :: "'a::len dynamic_bitset \<Rightarrow> 'a dynamic_bitset \<Rightarrow> bool option" where
  "is_proper_subset_of v bitset =
     (if bitset_size v \<noteq> bitset_size bitset then None
      else Some (is_proper_subset_of_loop (m_blocks v) (m_blocks bitset) 0 (length (m_blocks v)) False))"

fun intersects_loop :: "'a::len word list \<Rightarrow> 'a word list \<Rightarrow> nat \<Rightarrow> nat \<Rightarrow> bool" where
  "intersects_loop xs ys i 0 = False"
| "intersects_loop xs ys i (Suc k) =
     (if xs ! i AND ys ! i \<noteq> zero_block then True else intersects_loop xs ys (i + 1) k)"

definition intersects :: "'a::len dynamic_bitset \<Rightarrow> 'a dynamic_bitset \<Rightarrow> bool" where
  "intersects v bitset =
     (let min_blocks_number = min (length (m_blocks v)) (length (m_blocks bitset))
      in intersects_loop (m_blocks v) (m_blocks bitset) 0 min_blocks_number)"


section \<open>Counting and searching\<close>

text \<open>The program counts and searches either with a loop over the bits of a block or, where
  the build has them, with the compiler's \<open>__builtin_popcount\<close> and \<open>__builtin_ctz\<close> families
  (\<open>_BitScanForward\<close> on MSVC), and \<open>count\<close> calls \<open>popcnt\<close> of libpopcnt when
  \<open>DYNAMIC_BITSET_USE_LIBPOPCNT\<close> is defined.  The intrinsics and libpopcnt are not part of
  the source.\<close>

datatype bit_scan = Portable_loop | Compiler_builtin

text \<open>Modelled from the spec: \<open>__builtin_popcount\<close>, \<open>__builtin_popcountl\<close> and
  \<open>__builtin_popcountll\<close> are missing from the source; the spec treats them as a word
  population count, the number of one bits of the argument.\<close>

definition builtin_popcount :: "'a::len word \<Rightarrow> nat" where
  "builtin_popcount w = length (filter (bit w) [0..<LENGTH('a)])"

text \<open>Modelled from the spec: \<open>popcnt(data, size)\<close> of libpopcnt is missing from the source;
  the spec treats it as the population count of the bytes of all blocks.\<close>

definition popcnt :: "'a::len word list \<Rightarrow> nat" where
  "popcnt blocks = sum_list (map builtin_popcount blocks)"

text \<open>Modelled from the spec: \<open>__builtin_ctz\<close>, \<open>__builtin_ctzl\<close>, \<open>__builtin_ctzll\<close> and
  \<open>_BitScanForward\<close> are missing from the source; the spec treats them as a trailing-zero
  count, the number of zero bits below the lowest one bit of a non-zero argument.\<close>

definition builtin_ctz :: "'a::len word \<Rightarrow> nat" where
  "builtin_ctz w = length (takeWhile (\<lambda>j. \<not> bit w j) [0..<LENGTH('a)])"

text \<open>The counting loop of both \<open>block_count\<close> overloads, run for \<open>n\<close> bits: its state is
  \<open>count\<close> and \<open>mask\<close>.\<close>

definition block_count_loop :: "'a::len word \<Rightarrow> nat \<Rightarrow> nat" where
  "block_count_loop block n =
     fst (fold (\<lambda>bit_i (count, msk).
                  (count + (if block AND msk \<noteq> zero_block then 1 else 0), push_bit 1 msk))
            [0..<n] (0, 1))"

definition block_count :: "bit_scan \<Rightarrow> 'a::len word \<Rightarrow> nat" where
  "block_count path block =
     (if block = zero_block then 0
      else if path = Compiler_builtin then builtin_popcount block
      else block_count_loop block LENGTH('a))"

text \<open>\<open>block_count(block, nbits)\<close>.\<close>

definition block_count_nbits :: "bit_scan \<Rightarrow> 'a::len word \<Rightarrow> nat \<Rightarrow> nat option" where
  "block_count_nbits path block nbits =
     (if \<not> nbits \<le> LENGTH('a) then None
      else if block = zero_block then Some 0
      else if path = Compiler_builtin
      then Some (builtin_popcount (push_bit (LENGTH('a) - nbits) block))
      else Some (block_count_loop block nbits))"

text \<open>\<open>count()\<close>; \<open>use_libpopcnt\<close> says whether \<open>DYNAMIC_BITSET_USE_LIBPOPCNT\<close> is defined.\<close>

definition count_bits :: "bool \<Rightarrow> bit_scan \<Rightarrow> 'a::len dynamic_bitset \<Rightarrow> nat option" where
  "count_bits use_libpopcnt path v =
     (if bitset_empty v then Some 0
      else if use_libpopcnt then Some (popcnt (m_blocks v))
      else
        let count = fold (\<lambda>i c. c + block_count path (m_blocks v ! i))
                      [0..<length (m_blocks v) - 1] 0;
            block = last_block v
        in if block \<noteq> zero_block
           then (let extra_bits = extra_bits_number v
                 in if extra_bits = 0 then Some (count + block_count path block)
                    else map_option (\<lambda>c. count + c) (block_count_nbits path block extra_bits))
           else Some count)"

text \<open>The loop of \<open>first_on\<close>: \<open>k\<close> iterations are left, \<open>i\<close> is the loop index.\<close>

fun first_on_loop :: "'a::len word \<Rightarrow> nat \<Rightarrow> nat \<Rightarrow> 'a word \<Rightarrow> nat" where
  "first_on_loop block 0 i msk = npos"
| "first_on_loop block (Suc k) i msk =
     (if block AND msk \<noteq> zero_block then i
      else first_on_loop block k (i + 1) (push_bit 1 msk))"

definition first_on :: "bit_scan \<Rightarrow> 'a::len word \<Rightarrow> nat option" where
  "first_on path block =
     (if \<not> block \<noteq> zero_block then None
      else if path = Compiler_builtin then Some (builtin_ctz block)
      else Some (first_on_loop block LENGTH('a) 0 1))"

text \<open>The block scan of \<open>find_first\<close> and of the \<open>else\<close> branch of \<open>find_next\<close>, from block
  index \<open>i\<close> on; \<open>blocks\<close> are the blocks from index \<open>i\<close>.\<close>

fun find_loop :: "bit_scan \<Rightarrow> nat \<Rightarrow> 'a::len word list \<Rightarrow> nat option" where
  "find_loop path i [] = Some npos"
| "find_loop path i (block # blocks) =
     (if block \<noteq> zero_block
      then map_option (\<lambda>k. i * LENGTH('a) + k) (first_on path block)
      else find_loop path (i + 1) blocks)"

definition find_first :: "bit_scan \<Rightarrow> 'a::len dynamic_bitset \<Rightarrow> nat option" where
  "find_first path v = find_loop path 0 (m_blocks v)"

definition find_next :: "bit_scan \<Rightarrow> 'a::len dynamic_bitset \<Rightarrow> nat \<Rightarrow> nat option" where
  "find_next path v prev =
     (if bitset_empty v \<or> prev \<ge> bitset_size v - 1 then Some npos
      else
        let first_bit = prev + 1;
            first_block = block_index LENGTH('a) first_bit;
            first_bit_index = bit_index LENGTH('a) first_bit;
            first_block_shifted = drop_bit first_bit_index (m_blocks v ! first_block)
        in if first_block_shifted \<noteq> zero_block
           then map_option (\<lambda>k. first_bit + k) (first_on path first_block_shifted)
           else find_loop path (first_block + 1) (drop (first_block + 1) (m_blocks v)))"

section \<open>Strings\<close>

text \<open>\<open>to_string(zero, one)\<close>.  The inner loop runs \<open>limit\<close> times with the state \<open>str\<close> and
  \<open>mask\<close>; \<open>mask <<= 1\<close> is a shift of the block type, which drops the bit shifted out.\<close>

definition to_string :: "'a::len dynamic_bitset \<Rightarrow> 'c \<Rightarrow> 'c \<Rightarrow> 'c list" where
  "to_string v zero one =
     (let len = bitset_size v
      in fold (\<lambda>i_block str.
                 if m_blocks v ! i_block = zero_block then str
                 else
                   let limit = (if i_block * LENGTH('a) < len then len - i_block * LENGTH('a)
                                else LENGTH('a))
                   in fst (fold (\<lambda>i_bit (str, msk).
                                   ((if m_blocks v ! i_block AND msk \<noteq> zero_block
                                     then str[len - (i_block * LENGTH('a) + i_bit + 1) := one]
                                     else str),
                                    push_bit 1 msk))
                             [0..<limit] (str, 1)))
           [0..<length (m_blocks v)] (replicate len zero))"

text \<open>\<open>init_from_string(str, pos, n, zero, one)\<close>: the loop stops at the first character
  that is neither \<open>zero\<close> nor \<open>one\<close>, where the assertion fails.\<close>

definition init_from_string ::
  "'c list \<Rightarrow> nat \<Rightarrow> nat \<Rightarrow> 'c \<Rightarrow> 'c \<Rightarrow> 'a::len dynamic_bitset option" where
  "init_from_string str pos n zero one =
     (if \<not> pos < length str then None
      else
        let sz = min n (length str - pos);
            v0 = \<lparr>m_blocks = replicate (blocks_required LENGTH('a) sz) zero_block,
                  m_bits_number = sz\<rparr>
        in fold (\<lambda>i r. case r of
                          None \<Rightarrow> None
                        | Some v \<Rightarrow>
                            let c = str ! ((pos + sz - 1) - i)
                            in if \<not> (c = zero \<or> c = one) then None
                               else if c = one then set_pos v i True
                               else Some v)
             [0..<sz] (Some v0))"


section \<open>Constructors\<close>

definition dynamic_bitset_default :: "'a::len dynamic_bitset" where
  "dynamic_bitset_default = \<lparr>m_blocks = [], m_bits_number = 0\<rparr>"

text \<open>\<open>dynamic_bitset(nbits, init_val)\<close>.  \<open>init_val\<close> is an \<open>unsigned long long\<close>, a 64-bit
  word; \<open>sizeof\<close> counts bytes of eight bits, so \<open>sizeof(block_type)\<close> is \<open>LENGTH('a) div 8\<close>
  for the unsigned integer types of 8, 16, 32 and 64 bits.\<close>

definition sizeof_unsigned_long_long :: nat where
  "sizeof_unsigned_long_long = 8"

definition sizeof_block_type :: "'a::len word \<Rightarrow> nat" where
  "sizeof_block_type b = LENGTH('a) div 8"

definition dynamic_bitset_nbits :: "nat \<Rightarrow> 64 word \<Rightarrow> 'a::len dynamic_bitset" where
  "dynamic_bitset_nbits nbits init_val =
     (let v = \<lparr>m_blocks = replicate (blocks_required LENGTH('a) nbits) (0 :: 'a word),
                m_bits_number = nbits\<rparr>
      in if nbits = 0 \<or> init_val = 0 then v
         else
           let init_val_required_blocks =
                 sizeof_unsigned_long_long div sizeof_block_type (zero_block :: 'a word)
           in sanitize
                (if init_val_required_blocks = 1
                 then v\<lparr>m_blocks := (m_blocks v)[0 := ucast init_val]\<rparr>
                 else
                   let block_msk = (ucast (one_block :: 'a word) :: 64 word);
                       blocks_to_init = min (length (m_blocks v)) init_val_required_blocks
                   in v\<lparr>m_blocks :=
                          fold (\<lambda>i bs. bs[i := ucast (drop_bit (i * LENGTH('a)) init_val AND block_msk)])
                            [0..<blocks_to_init] (m_blocks v)\<rparr>))"

text \<open>\<open>dynamic_bitset(std::initializer_list<block_type> init_vals)\<close>.\<close>

definition dynamic_bitset_init_list :: "'a::len word list \<Rightarrow> 'a dynamic_bitset option" where
  "dynamic_bitset_init_list init_vals = append_list dynamic_bitset_default init_vals"

text \<open>The three constructors from a string (a \<open>std::basic_string_view\<close>, a
  \<open>std::basic_string\<close>, a character pointer) run \<open>init_from_string\<close> on an empty bitset; the
  first two assert \<open>pos < str.size()\<close> themselves, and \<open>init_from_string\<close> asserts it for all
  three.\<close>

definition dynamic_bitset_string ::
  "'c list \<Rightarrow> nat \<Rightarrow> nat \<Rightarrow> 'c \<Rightarrow> 'c \<Rightarrow> 'a::len dynamic_bitset option" where
  "dynamic_bitset_string str pos n zero one =
     (if \<not> pos < length str then None else init_from_string str pos n zero one)"

section \<open>Comparison\<close>

definition operator_eq :: "'a::len dynamic_bitset \<Rightarrow> 'a dynamic_bitset \<Rightarrow> bool" where
  "operator_eq lhs rhs = (m_bits_number lhs = m_bits_number rhs \<and> m_blocks lhs = m_blocks rhs)"

definition operator_neq :: "'a::len dynamic_bitset \<Rightarrow> 'a dynamic_bitset \<Rightarrow> bool" where
  "operator_neq lhs rhs = (\<not> operator_eq lhs rhs)"

text \<open>The loops \<open>for(i = k; i > 0; --i)\<close> of \<open>operator<\<close> that compare the blocks \<open>k\<close> down to
  \<open>1\<close>: \<open>Some b\<close> when the loop returns \<open>b\<close>, \<open>None\<close> when it runs to its end.\<close>

fun less_loop :: "'a::len word list \<Rightarrow> 'a word list \<Rightarrow> nat \<Rightarrow> bool option" where
  "less_loop xs ys 0 = None"
| "less_loop xs ys (Suc i) =
     (if xs ! Suc i \<noteq> ys ! Suc i then Some (xs ! Suc i < ys ! Suc i) else less_loop xs ys i)"

text \<open>\<open>operator<\<close>.  The loop over the blocks that only the longer bitset has runs \<open>i\<close> from
  \<open>longest_blocks_size - 1\<close> down to \<open>shortest_blocks_size\<close> and returns \<open>rhs_longer\<close> at the
  first non-zero block; both bitsets are non-empty there.\<close>

definition operator_less :: "'a::len dynamic_bitset \<Rightarrow> 'a dynamic_bitset \<Rightarrow> bool" where
  "operator_less lhs rhs =
     (let lhs_size = bitset_size lhs;
          rhs_size = bitset_size rhs;
          lhs_blocks_size = length (m_blocks lhs);
          rhs_blocks_size = length (m_blocks rhs)
      in if lhs_size = rhs_size
         then (if lhs_size = 0 then False
               else case less_loop (m_blocks lhs) (m_blocks rhs) (lhs_blocks_size - 1) of
                      Some b \<Rightarrow> b
                    | None \<Rightarrow> m_blocks lhs ! 0 < m_blocks rhs ! 0)
         else if lhs_size = 0 then True
         else if rhs_size = 0 then False
         else
           let rhs_longer = (rhs_size > lhs_size);
               longest_bitset = (if rhs_longer then rhs else lhs);
               longest_blocks_size = max lhs_blocks_size rhs_blocks_size;
               shortest_blocks_size = min lhs_blocks_size rhs_blocks_size
           in if list_ex (\<lambda>i. m_blocks longest_bitset ! i \<noteq> 0)
                   (rev [shortest_blocks_size..<longest_blocks_size])
              then rhs_longer
              else case less_loop (m_blocks lhs) (m_blocks rhs) (shortest_blocks_size - 1) of
                     Some b \<Rightarrow> b
                   | None \<Rightarrow>
                       if m_blocks lhs ! 0 \<noteq> m_blocks rhs ! 0
                       then m_blocks lhs ! 0 < m_blocks rhs ! 0
                       else lhs_size < rhs_size)"

definition operator_le :: "'a::len dynamic_bitset \<Rightarrow> 'a dynamic_bitset \<Rightarrow> bool" where
  "operator_le lhs rhs = (\<not> operator_less rhs lhs)"

section \<open>The bits of a bitset\<close>

text \<open>The bit at position \<open>p\<close> as the blocks store it: bit \<open>p mod bits_per_block\<close> of block
  \<open>p div bits_per_block\<close>.  \<open>test\<close> returns this bit for every position below the size.\<close>

definition bit_of :: "'a::len dynamic_bitset \<Rightarrow> nat \<Rightarrow> bool" where
  "bit_of v p = bit (m_blocks v ! (p div LENGTH('a))) (p mod LENGTH('a))"

text \<open>The positions whose bit is set in a list of blocks.\<close>

definition bits_set :: "'a::len word list \<Rightarrow> nat set" where
  "bits_set bs = {p. p div LENGTH('a) < length bs \<and> bit (bs ! (p div LENGTH('a))) (p mod LENGTH('a))}"

text \<open>\<open>r\<close> is the least position from \<open>s\<close> on whose bit is set: it is a position of the bitset,
  \<open>test\<close> is true there, and \<open>test\<close> is false at every position from \<open>s\<close> up to \<open>r\<close>.\<close>

definition first_set_from :: "'a::len dynamic_bitset \<Rightarrow> nat \<Rightarrow> nat \<Rightarrow> bool" where
  "first_set_from v s r =
     (s \<le> r \<and> r < bitset_size v \<and> test v r = Some True \<and>
      (\<forall>q. s \<le> q \<and> q < r \<longrightarrow> test v q = Some False))"

text \<open>The unsigned number a bitset represents: bit \<open>p\<close> has the weight \<open>2 ^ p\<close>.\<close>

definition magnitude :: "'a::len dynamic_bitset \<Rightarrow> nat" where
  "magnitude v = (\<Sum>p<bitset_size v. if test v p = Some True then 2 ^ p else 0)"

text \<open>The blocks that \<open>append(first, last)\<close> pushes when the size is not a multiple of the
  block width: \<open>block\<close> is the local variable of that name, the high bits of the block read
  before, and every block of the rest of the range contributes its low bits to it.\<close>

fun carried_blocks :: "nat \<Rightarrow> nat \<Rightarrow> 'a::len word \<Rightarrow> 'a word list \<Rightarrow> 'a word list" where
  "carried_blocks e u block [] = [block]"
| "carried_blocks e u block (b # rest) =
     (block OR push_bit e b) # carried_blocks e u (drop_bit u b) rest"

section \<open>Blocks, masks and the consistency check\<close>

lemma and_bit_mask_neq_0: "((w::'a::len word) AND bit_mask pos \<noteq> zero_block) = bit w (pos mod LENGTH('a))"
  by (simp add: bit_mask_def zero_block_def bit_index_def bit_iff_and_push_bit_not_eq_0)

lemma test_eq: "test v p = (if p < m_bits_number v then Some (bit_of v p) else None)"
  by (simp add: test_def bit_of_def and_bit_mask_neq_0 bitset_size_def block_index_def)

lemma and_push_one_block_eq_0:
  "((w::'a::len word) AND push_bit e one_block = zero_block) = (\<forall>j. e \<le> j \<longrightarrow> \<not> bit w j)"
  by (auto simp add: bit_eq_iff bit_simps one_block_def zero_block_def not_le dest: bit_imp_le_length)

lemma check_unused_bits_iff:
  "check_unused_bits (v::'a::len dynamic_bitset) =
     (m_bits_number v mod LENGTH('a) \<noteq> 0 \<longrightarrow>
        (\<forall>j. m_bits_number v mod LENGTH('a) \<le> j \<longrightarrow> \<not> bit (last_block v) j))"
  by (simp add: check_unused_bits_def extra_bits_number_def bit_index_def and_push_one_block_eq_0 Let_def)

lemma blocks_required_alt:
  "blocks_required W n = (if n mod W = 0 then n div W else Suc (n div W))"
  by (simp add: blocks_required_def)

lemma blocks_required_bounds:
  assumes "0 < W"
  shows "n \<le> blocks_required W n * W" and "0 < n \<Longrightarrow> (blocks_required W n - 1) * W < n"
proof -
  define q where "q = n div W"
  define r where "r = n mod W"
  have n: "n = q * W + r" by (simp add: q_def r_def)
  have r: "r < W" using assms by (simp add: r_def)
  have br: "blocks_required W n = (if r = 0 then q else Suc q)"
    by (simp add: blocks_required_alt q_def r_def)
  show "n \<le> blocks_required W n * W"
    unfolding br using n r by simp
  show "(blocks_required W n - 1) * W < n" if "0 < n"
  proof (cases "r = 0")
    case True
    then have "q > 0" using that n by (cases q) auto
    then have "(q - 1) * W < q * W" using assms by simp
    then show ?thesis unfolding br using True n by simp
  next
    case False
    then show ?thesis unfolding br using n by simp
  qed
qed

text \<open>The two checks of \<open>check_consistency\<close> say that the vector has the blocks its size
  requires and that every bit that is set lies below the size.\<close>

lemma check_consistency_iff:
  "check_consistency (v::'a::len dynamic_bitset) =
     (length (m_blocks v) = blocks_required LENGTH('a) (m_bits_number v) \<and>
      (\<forall>i j. i < length (m_blocks v) \<and> bit (m_blocks v ! i) j \<longrightarrow> i * LENGTH('a) + j < m_bits_number v))"
  (is "?L = (?S \<and> ?B)")
proof -
  let ?W = "LENGTH('a)" and ?n = "m_bits_number v" and ?bs = "m_blocks v"
  define q where "q = ?n div ?W"
  define r where "r = ?n mod ?W"
  have n: "?n = q * ?W + r" by (simp add: q_def r_def)
  have br: "blocks_required ?W ?n = (if r = 0 then q else Suc q)"
    by (simp add: blocks_required_alt q_def r_def)
  have cu: "check_unused_bits v = (r \<noteq> 0 \<longrightarrow> (\<forall>j. r \<le> j \<longrightarrow> \<not> bit (last_block v) j))"
    by (simp add: check_unused_bits_iff r_def)
  have low: "i * ?W + j < ?n" if "Suc i \<le> q" "bit (?bs ! i) j" for i j
  proof -
    have "j < ?W" using that(2) by (rule bit_imp_le_length)
    moreover have "Suc i * ?W \<le> q * ?W" using that(1) by (rule mult_le_mono1)
    ultimately show ?thesis using n by simp
  qed
  have "check_unused_bits v = ?B" if S: ?S
  proof (cases "r = 0")
    case True
    have "i * ?W + j < ?n" if "i < length ?bs" "bit (?bs ! i) j" for i j
      using low[of i j] that S True by (simp add: br)
    then show ?thesis using True by (auto simp: cu)
  next
    case False
    then have len: "length ?bs = Suc q" using S by (simp add: br)
    show ?thesis
    proof
      assume c: "check_unused_bits v"
      show ?B
      proof (intro allI impI, elim conjE)
        fix i j assume i: "i < length ?bs" and b: "bit (?bs ! i) j"
        show "i * ?W + j < ?n"
        proof (cases "i = q")
          case True
          then have "bit (last_block v) j" using b len by (simp add: last_block_def)
          then have "\<not> r \<le> j" using c False by (auto simp: cu)
          then have "j < r" by simp
          then show ?thesis using True n by simp
        next
          case F: False
          then have "Suc i \<le> q" using i len by simp
          then show ?thesis using b by (rule low)
        qed
      qed
    next
      assume B: ?B
      have "\<not> bit (last_block v) j" if "r \<le> j" for j
      proof
        assume "bit (last_block v) j"
        then have "q * ?W + j < ?n" using B len by (simp add: last_block_def)
        then show False using that n by simp
      qed
      then show "check_unused_bits v" by (simp add: cu)
    qed
  qed
  then show ?thesis by (auto simp: check_consistency_def check_size_def bitset_size_def)
qed

lemma bit_sanitized:
  "bit ((w::'a::len word) AND NOT (push_bit s one_block)) j = (bit w j \<and> j < s)"
  by (auto simp add: bit_simps one_block_def zero_block_def not_le dest: bit_imp_le_length)

lemma fold_update_upt:
  assumes "n \<le> length bs"
  shows "length (fold (\<lambda>i b. b[i := f i (b ! i)]) [a..<n] bs) = length bs"
    and "k < length bs \<Longrightarrow> fold (\<lambda>i b. b[i := f i (b ! i)]) [a..<n] bs ! k =
           (if a \<le> k \<and> k < n then f k (bs ! k) else bs ! k)"
  using assms
proof (induction n arbitrary: k)
  case 0
  { case 1 show ?case by simp }
  { case 2 show ?case by simp }
next
  case (Suc n)
  { case 1 then show ?case using Suc.IH(1) by (cases "a \<le> n") simp_all }
  { case 2 then show ?case using Suc.IH by (cases "a \<le> n") (auto simp: nth_list_update) }
qed

lemma any_loop_iff: "any_loop bs = (\<exists>b \<in> set bs. b \<noteq> 0)"
  by (induction bs) (auto simp: zero_block_def)

lemma all_loop_iff: "all_loop bs = (\<forall>b \<in> set bs. b = one_block)"
  by (induction bs) auto

lemma is_subset_of_loop_iff:
  "is_subset_of_loop xs ys i k = (\<forall>t<k. xs ! (i + t) AND NOT (ys ! (i + t)) = 0)"
  by (induction k arbitrary: i) (simp_all add: All_less_Suc2 zero_block_def)

lemma is_proper_subset_of_loop_iff:
  "is_proper_subset_of_loop xs ys i k p =
     ((\<forall>t<k. xs ! (i + t) AND NOT (ys ! (i + t)) = 0) \<and>
      (p \<or> (\<exists>t<k. NOT (xs ! (i + t)) AND ys ! (i + t) \<noteq> 0)))"
  by (induction k arbitrary: i p) (auto simp add: All_less_Suc2 Ex_less_Suc2 zero_block_def Let_def)

lemma intersects_loop_iff:
  "intersects_loop xs ys i k = (\<exists>t<k. xs ! (i + t) AND ys ! (i + t) \<noteq> 0)"
  by (induction k arbitrary: i) (simp_all add: Ex_less_Suc2 zero_block_def)

lemma and_not_eq_0_iff: "((a::'a::len word) AND NOT b = 0) = (\<forall>j. bit a j \<longrightarrow> bit b j)"
  by (auto simp: bit_eq_iff bit_simps dest: bit_imp_le_length)

lemma and_neq_0_iff: "((a::'a::len word) AND b \<noteq> 0) = (\<exists>j. bit a j \<and> bit b j)"
  using bit_imp_le_length by (auto simp: bit_eq_iff bit_simps)

lemma sanitize_length [simp]: "length (m_blocks (sanitize v)) = length (m_blocks v)"
  by (simp add: sanitize_def Let_def)

lemma sanitize_size [simp]: "m_bits_number (sanitize v) = m_bits_number v"
  by (simp add: sanitize_def Let_def)

lemma bit_sanitize:
  fixes v :: "'a::len dynamic_bitset"
  assumes "length (m_blocks v) = blocks_required LENGTH('a) (m_bits_number v)" "i < length (m_blocks v)"
  shows "bit (m_blocks (sanitize v) ! i) j =
           (bit (m_blocks v ! i) j \<and> i * LENGTH('a) + j < m_bits_number v)"
proof -
  let ?W = "LENGTH('a)" and ?n = "m_bits_number v" and ?bs = "m_blocks v"
  define q where "q = ?n div ?W"
  define r where "r = ?n mod ?W"
  have n: "?n = q * ?W + r" by (simp add: q_def r_def)
  have r: "r < ?W" by (simp add: r_def)
  have len: "length ?bs = (if r = 0 then q else Suc q)"
    using assms(1) by (simp add: blocks_required_alt q_def r_def)
  have low: "i * ?W + j < ?n" if "Suc i \<le> q" "j < ?W"
  proof -
    have "Suc i * ?W \<le> q * ?W" using that(1) by (rule mult_le_mono1)
    then show ?thesis using n that(2) by simp
  qed
  show ?thesis
  proof (cases "bit (?bs ! i) j")
    case False
    then show ?thesis using assms(2)
      by (cases "i = length ?bs - 1") (simp_all add: sanitize_def Let_def bit_sanitized last_block_def)
  next
    case True
    then have j: "j < ?W" by (rule bit_imp_le_length)
    show ?thesis
    proof (cases "r = 0")
      case r0: True
      then have "Suc i \<le> q" using assms(2) len by simp
      then have "i * ?W + j < ?n" using j by (rule low)
      then show ?thesis using r0 True by (simp add: sanitize_def r_def)
    next
      case r1: False
      show ?thesis
      proof (cases "i = q")
        case iq: True
        have "(i * ?W + j < ?n) = (j < r)" using iq n by simp
        then show ?thesis using r1 True iq len
          by (simp add: sanitize_def Let_def r_def[symmetric] bit_sanitized last_block_def)
      next
        case False
        then have "Suc i \<le> q" using assms(2) len r1 by simp
        then have "i * ?W + j < ?n" using j by (rule low)
        then show ?thesis using r1 True False len
          by (simp add: sanitize_def Let_def r_def[symmetric] nth_list_update)
      qed
    qed
  qed
qed

lemma check_consistency_sanitize:
  fixes v :: "'a::len dynamic_bitset"
  assumes "length (m_blocks v) = blocks_required LENGTH('a) (m_bits_number v)"
  shows "check_consistency (sanitize v)"
  unfolding check_consistency_iff using bit_sanitize[OF assms] assms by auto

section \<open>Bitwise operators and the subset predicates\<close>

lemma any_loop_nth: "any_loop bs = (\<exists>i<length bs. bs ! i \<noteq> 0)"
  by (metis any_loop_iff in_set_conv_nth)

lemma m_blocks_and_assign:
  assumes "operator_and_assign v rhs = Some D"
  shows "m_bits_number D = m_bits_number v" "length (m_blocks D) = length (m_blocks v)"
    "i < length (m_blocks v) \<Longrightarrow> m_blocks D ! i = m_blocks v ! i AND m_blocks rhs ! i"
  using assms fold_update_upt[where n="length (m_blocks v)" and bs="m_blocks v"
      and f="\<lambda>i b. b AND m_blocks rhs ! i" and a=0]
  by (auto simp: operator_and_assign_def split: if_splits)

lemma flip_all_simps:
  fixes v :: "'a::len dynamic_bitset"
  shows "m_bits_number (flip_all v) = m_bits_number v" "length (m_blocks (flip_all v)) = length (m_blocks v)"
  by (simp_all add: flip_all_def)

lemma bit_flip_all:
  fixes v :: "'a::len dynamic_bitset"
  assumes "length (m_blocks v) = blocks_required LENGTH('a) (m_bits_number v)" "i < length (m_blocks v)"
  shows "bit (m_blocks (flip_all v) ! i) j =
           (\<not> bit (m_blocks v ! i) j \<and> j < LENGTH('a) \<and> i * LENGTH('a) + j < m_bits_number v)"
  using assms bit_sanitize[of "v\<lparr>m_blocks := map (\<lambda>b. NOT b) (m_blocks v)\<rparr>" i j]
  by (auto simp: flip_all_def bit_simps)

section \<open>Positions and blocks\<close>

lemma div_less_blocks_required:
  assumes "0 < W" "p < n"
  shows "p div W < blocks_required W n"
proof -
  have "p < blocks_required W n * W" using blocks_required_bounds(1)[OF assms(1), of n] assms(2) by simp
  then show ?thesis by (rule less_mult_imp_div_less)
qed

lemma block_position:
  fixes i j W :: nat
  assumes "j < W"
  shows "(i * W + j) div W = i" "(i * W + j) mod W = j"
  using assms by auto

lemma check_consistency_length:
  fixes v :: "'a::len dynamic_bitset"
  assumes "check_consistency v"
  shows "length (m_blocks v) = blocks_required LENGTH('a) (m_bits_number v)"
  using assms by (simp add: check_consistency_iff)

lemma check_consistency_bound:
  fixes v :: "'a::len dynamic_bitset"
  assumes "check_consistency v" "i < length (m_blocks v)" "bit (m_blocks v ! i) j"
  shows "i * LENGTH('a) + j < m_bits_number v"
  using assms by (simp add: check_consistency_iff)

lemma check_consistency_index:
  fixes v :: "'a::len dynamic_bitset"
  assumes "check_consistency v" "p < m_bits_number v"
  shows "p div LENGTH('a) < length (m_blocks v)"
  using assms by (simp add: check_consistency_length div_less_blocks_required)

text \<open>Some block pair has a non-zero AND iff some position has both bits set.\<close>

lemma common_block_iff_common_bit:
  fixes A B :: "'a::len dynamic_bitset"
  assumes A: "check_consistency A" and B: "check_consistency B"
  shows "(\<exists>i < min (length (m_blocks A)) (length (m_blocks B)). m_blocks A ! i AND m_blocks B ! i \<noteq> 0) =
         (\<exists>p < min (m_bits_number A) (m_bits_number B). bit_of A p \<and> bit_of B p)"
    (is "?L = ?R")
proof
  let ?W = "LENGTH('a)"
  assume ?L
  then obtain i j where i: "i < length (m_blocks A)" "i < length (m_blocks B)"
    and j: "bit (m_blocks A ! i) j" "bit (m_blocks B ! i) j"
    by (auto simp: and_neq_0_iff)
  have jW: "j < ?W" using j(1) by (rule bit_imp_le_length)
  have "i * ?W + j < m_bits_number A" "i * ?W + j < m_bits_number B"
    using check_consistency_bound[OF A i(1) j(1)] check_consistency_bound[OF B i(2) j(2)] by simp_all
  moreover have "bit_of A (i * ?W + j)" "bit_of B (i * ?W + j)"
    using j jW by (simp_all add: bit_of_def)
  ultimately show ?R by (intro exI[of _ "i * ?W + j"]) simp
next
  let ?W = "LENGTH('a)"
  assume ?R
  then obtain p where p: "p < m_bits_number A" "p < m_bits_number B" "bit_of A p" "bit_of B p"
    by auto
  have "p div ?W < length (m_blocks A)" "p div ?W < length (m_blocks B)"
    using check_consistency_index[OF A p(1)] check_consistency_index[OF B p(2)] by simp_all
  moreover have "m_blocks A ! (p div ?W) AND m_blocks B ! (p div ?W) \<noteq> 0"
    using p(3,4) by (auto simp: and_neq_0_iff bit_of_def)
  ultimately show ?L by (intro exI[of _ "p div ?W"]) simp
qed

section \<open>Population count\<close>

lemma builtin_popcount_card: "builtin_popcount (w::'a::len word) = card {j. bit w j}"
proof -
  have "{j. bit w j} = {i. i < length [0..<LENGTH('a)] \<and> bit w ([0..<LENGTH('a)] ! i)}"
    using bit_imp_le_length[of w] by auto
  then show ?thesis by (simp add: builtin_popcount_def length_filter_conv_card)
qed

lemma finite_bits_word [simp]: "finite {j. bit (w::'a::len word) j}"
proof -
  have "{j. bit w j} \<subseteq> {..<LENGTH('a)}" using bit_imp_le_length[of w] by auto
  then show ?thesis by (rule finite_subset) simp
qed

lemma bits_set_snoc:
  "bits_set (bs @ [b :: 'a::len word]) =
     bits_set bs \<union> (\<lambda>j. length bs * LENGTH('a) + j) ` {j. bit b j}" (is "?L = ?A \<union> ?B")
proof (intro set_eqI iffI)
  fix p assume "p \<in> ?L"
  then have p: "p div LENGTH('a) < Suc (length bs)"
      "bit ((bs @ [b]) ! (p div LENGTH('a))) (p mod LENGTH('a))"
    by (simp_all add: bits_set_def)
  show "p \<in> ?A \<union> ?B"
  proof (cases "p div LENGTH('a) < length bs")
    case True then show ?thesis using p by (simp add: bits_set_def nth_append)
  next
    case False
    then have e: "p div LENGTH('a) = length bs" using p(1) by simp
    then have "bit b (p mod LENGTH('a))" using p(2) by (simp add: nth_append)
    moreover have "p = length bs * LENGTH('a) + p mod LENGTH('a)"
      using e div_mult_mod_eq[of p "LENGTH('a)"] by simp
    ultimately show ?thesis by blast
  qed
next
  fix p assume "p \<in> ?A \<union> ?B"
  then show "p \<in> ?L"
  proof
    assume "p \<in> ?A" then show ?thesis by (simp add: bits_set_def nth_append)
  next
    assume "p \<in> ?B"
    then obtain j where j: "bit b j" "p = length bs * LENGTH('a) + j" by blast
    have "j < LENGTH('a)" using j(1) by (rule bit_imp_le_length)
    then show ?thesis using j by (simp add: bits_set_def nth_append)
  qed
qed

lemma finite_bits_set [simp]: "finite (bits_set (bs :: 'a::len word list))"
proof -
  have "bits_set bs \<subseteq> {..<length bs * LENGTH('a)}"
    by (auto simp: bits_set_def div_less_iff_less_mult)
  then show ?thesis by (rule finite_subset) simp
qed

lemma card_bits_set: "card (bits_set bs) = sum_list (map builtin_popcount bs)"
proof (induction bs rule: rev_induct)
  case Nil show ?case by (simp add: bits_set_def)
next
  case (snoc b bs)
  let ?B = "(\<lambda>j. length bs * LENGTH('a) + j) ` {j. bit b j}"
  have "bits_set bs \<inter> ?B = {}" by (auto simp: bits_set_def)
  then have "card (bits_set bs \<union> ?B) = card (bits_set bs) + card ?B"
    by (intro card_Un_disjoint) simp_all
  moreover have "card ?B = card {j. bit b j}" by (intro card_image) (simp add: inj_on_def)
  ultimately show ?case using snoc.IH by (simp add: bits_set_snoc builtin_popcount_card)
qed

lemma set_positions_eq_bits_set:
  fixes v :: "'a::len dynamic_bitset"
  assumes "check_consistency v"
  shows "{p. p < bitset_size v \<and> test v p = Some True} = bits_set (m_blocks v)"
proof -
  have "p < m_bits_number v" if "p div LENGTH('a) < length (m_blocks v)"
     "bit (m_blocks v ! (p div LENGTH('a))) (p mod LENGTH('a))" for p
    using check_consistency_bound[OF assms that] by simp
  then show ?thesis
    using check_consistency_index[OF assms]
    by (auto simp: bits_set_def test_eq bitset_size_def bit_of_def)
qed

lemma block_count_loop_state:
  "fold (\<lambda>bit_i (count, msk).
           (count + (if (block::'a::len word) AND msk \<noteq> zero_block then 1 else 0), push_bit 1 msk))
     [0..<n] (0, 1) = (card {j. j < n \<and> bit block j}, 2 ^ n)"
proof (induction n)
  case 0 show ?case by simp
next
  case (Suc n)
  have s: "{j. j < Suc n \<and> bit block j} = (if bit block n then insert n {j. j < n \<and> bit block j}
             else {j. j < n \<and> bit block j})"
    by (auto simp: less_Suc_eq)
  show ?case using Suc by (simp add: s zero_block_def and_exp_eq_0_iff_not_bit push_bit_eq_mult)
qed

lemma block_count_loop_card:
  "block_count_loop (block::'a::len word) n = card {j. j < n \<and> bit block j}"
  unfolding block_count_loop_def block_count_loop_state by simp

lemma block_count_card: "block_count path (block::'a::len word) = card {j. bit block j}"
proof -
  have "{j. j < LENGTH('a) \<and> bit block j} = {j. bit block j}"
    using bit_imp_le_length[of block] by auto
  then show ?thesis
    by (auto simp: block_count_def block_count_loop_card builtin_popcount_card zero_block_def)
qed

lemma block_count_nbits_card:
  assumes "nbits \<le> LENGTH('a)"
  shows "block_count_nbits path (block::'a::len word) nbits = Some (card {j. j < nbits \<and> bit block j})"
proof -
  let ?s = "LENGTH('a) - nbits"
  have "{j. bit (push_bit ?s block) j} = (\<lambda>k. k + ?s) ` {j. j < nbits \<and> bit block j}"
  proof (intro set_eqI iffI)
    fix j assume "j \<in> {j. bit (push_bit ?s block) j}"
    then have j: "?s \<le> j" "j < LENGTH('a)" "bit block (j - ?s)" by (auto simp: bit_simps)
    then have "j - ?s < nbits" "j = (j - ?s) + ?s" using assms by simp_all
    then show "j \<in> (\<lambda>k. k + ?s) ` {j. j < nbits \<and> bit block j}" using j(3) by blast
  next
    fix j assume "j \<in> (\<lambda>k. k + ?s) ` {j. j < nbits \<and> bit block j}"
    then show "j \<in> {j. bit (push_bit ?s block) j}" using assms by (auto simp: bit_simps)
  qed
  moreover have "card ((\<lambda>k. k + ?s) ` {j. j < nbits \<and> bit block j}) = card {j. j < nbits \<and> bit block j}"
    by (intro card_image) (simp add: inj_on_def)
  ultimately show ?thesis using assms
    by (auto simp: block_count_nbits_def block_count_loop_card builtin_popcount_card zero_block_def)
qed

lemma fold_sum_blocks:
  "k \<le> length bs \<Longrightarrow> fold (\<lambda>i c. c + f (bs ! i)) [0..<k] a = a + sum_list (map f (take k bs))"
  by (induction k) (simp_all add: take_Suc_conv_app_nth add.assoc)

section \<open>Searching\<close>

lemma first_on_loop_found:
  assumes "i \<le> m" "m < i + k" "bit (block::'a::len word) m" "\<forall>j. i \<le> j \<and> j < m \<longrightarrow> \<not> bit block j"
  shows "first_on_loop block k i (2 ^ i) = m"
  using assms
proof (induction k arbitrary: i)
  case 0 then show ?case by simp
next
  case (Suc k)
  show ?case
  proof (cases "bit block i")
    case True
    then have "i = m" using Suc.prems(1,4) by (cases "i = m") auto
    then show ?thesis using True by (simp add: zero_block_def and_exp_eq_0_iff_not_bit)
  next
    case False
    then have "i \<noteq> m" using Suc.prems(3) by auto
    then have "first_on_loop block k (Suc i) (2 ^ Suc i) = m"
      using Suc.prems by (intro Suc.IH) auto
    then show ?thesis using False by (simp add: zero_block_def and_exp_eq_0_iff_not_bit push_bit_eq_mult mult.commute)
  qed
qed

lemma builtin_ctz_found:
  assumes "bit (w::'a::len word) m" "\<forall>j<m. \<not> bit w j"
  shows "builtin_ctz w = m"
proof -
  have m: "m < LENGTH('a)" using assms(1) by (rule bit_imp_le_length)
  then have "[0..<LENGTH('a)] = [0..<m] @ m # [Suc m..<LENGTH('a)]"
    by (metis le_add2 le_add_same_cancel2 less_imp_add_positive upt_add_eq_append upt_conv_Cons)
  then have "takeWhile (\<lambda>j. \<not> bit w j) [0..<LENGTH('a)] = takeWhile (\<lambda>j. \<not> bit w j) [0..<m]"
    using assms(1) by (simp add: takeWhile_tail)
  also have "\<dots> = [0..<m]" using assms(2) by (simp add: takeWhile_eq_all_conv)
  finally show ?thesis by (simp add: builtin_ctz_def)
qed

lemma first_on_found:
  assumes "bit (block::'a::len word) m" "\<forall>j<m. \<not> bit block j"
  shows "first_on path block = Some m"
proof -
  have "m < LENGTH('a)" using assms(1) by (rule bit_imp_le_length)
  then have "first_on_loop block LENGTH('a) 0 (2 ^ 0) = m"
    using assms by (intro first_on_loop_found) auto
  moreover have "block \<noteq> 0" using assms(1) by auto
  ultimately show ?thesis using builtin_ctz_found[OF assms]
    by (simp add: first_on_def zero_block_def)
qed

lemma find_loop_found:
  assumes "i0 \<le> i" "i < length bs" "\<forall>t. i0 \<le> t \<and> t < i \<longrightarrow> bs ! t = 0"
    "bit (bs ! i) m" "\<forall>j<m. \<not> bit (bs ! i) j"
  shows "find_loop path i0 (drop i0 (bs :: 'a::len word list)) = Some (i * LENGTH('a) + m)"
  using assms(1,3)
proof (induction "i - i0" arbitrary: i0)
  case 0
  then have e: "i0 = i" by simp
  have "bs ! i \<noteq> 0" using assms(4) by auto
  then show ?case using assms(2) first_on_found[OF assms(4,5), of path]
    by (simp add: e Cons_nth_drop_Suc[symmetric] zero_block_def)
next
  case (Suc d)
  then have lt: "i0 < i" by simp
  then have z: "bs ! i0 = 0" using Suc.prems by simp
  have "find_loop path (Suc i0) (drop (Suc i0) bs) = Some (i * LENGTH('a) + m)"
    using Suc.hyps(2) Suc.prems lt by (intro Suc.hyps(1)) auto
  then show ?case using lt assms(2) z
    by (simp add: Cons_nth_drop_Suc[symmetric] zero_block_def)
qed

lemma find_loop_none:
  assumes "\<forall>t. i0 \<le> t \<and> t < length bs \<longrightarrow> bs ! t = 0"
  shows "find_loop path i0 (drop i0 (bs :: 'a::len word list)) = Some npos"
  using assms
proof (induction "length bs - i0" arbitrary: i0)
  case 0 then show ?case by simp
next
  case (Suc d)
  then have lt: "i0 < length bs" by simp
  have "find_loop path (Suc i0) (drop (Suc i0) bs) = Some npos"
    using Suc.hyps(2) Suc.prems by (intro Suc.hyps(1)) auto
  then show ?case using lt Suc.prems
    by (simp add: Cons_nth_drop_Suc[symmetric] zero_block_def)
qed

lemma ex_first_set_from:
  assumes "s \<le> p" "p < bitset_size v" "test v p = Some True"
  shows "\<exists>r. first_set_from v s r"
proof -
  define Q where "Q = (\<lambda>p. s \<le> p \<and> p < bitset_size v \<and> test v p = Some True)"
  have "Q p" using assms by (simp add: Q_def)
  then have L: "Q (Least Q)" by (rule LeastI)
  have M: "\<not> Q q" if "q < Least Q" for q using that by (rule not_less_Least)
  have "test v q = Some False" if "s \<le> q" "q < Least Q" for q
    using M[OF that(2)] that L by (auto simp: Q_def test_eq bitset_size_def)
  then show ?thesis using L unfolding first_set_from_def Q_def by blast
qed

text \<open>The scan of the blocks from block index \<open>i0\<close> finds the first set position from
  \<open>i0 * bits_per_block\<close> on, or returns \<open>npos\<close> when there is none.\<close>

lemma find_loop_correct:
  fixes v :: "'a::len dynamic_bitset"
  assumes cc: "check_consistency v"
  shows "first_set_from v (i0 * LENGTH('a)) r \<Longrightarrow> find_loop path i0 (drop i0 (m_blocks v)) = Some r"
    and "\<forall>p. i0 * LENGTH('a) \<le> p \<and> p < bitset_size v \<longrightarrow> test v p \<noteq> Some True \<Longrightarrow>
           find_loop path i0 (drop i0 (m_blocks v)) = Some npos"
proof -
  let ?W = "LENGTH('a)" and ?bs = "m_blocks v" and ?n = "m_bits_number v"
  {
    assume f: "first_set_from v (i0 * ?W) r"
    define i where "i = r div ?W"
    define m where "m = r mod ?W"
    have r: "r = i * ?W + m" and m: "m < ?W" by (simp_all add: i_def m_def)
    have rn: "r < ?n" and s: "i0 * ?W \<le> r" and b: "bit (?bs ! i) m"
      and mn: "\<And>q. i0 * ?W \<le> q \<Longrightarrow> q < r \<Longrightarrow> \<not> bit_of v q"
      using f by (auto simp: first_set_from_def test_eq bitset_size_def bit_of_def i_def m_def split: if_splits)
    have i: "i < length ?bs" unfolding i_def using cc rn by (rule check_consistency_index)
    have i0: "i0 \<le> i"
    proof (rule ccontr)
      assume "\<not> i0 \<le> i"
      then have "Suc i \<le> i0" by simp
      then have "Suc i * ?W \<le> i0 * ?W" by (rule mult_le_mono1)
      then show False using s m r by simp
    qed
    have z: "?bs ! t = 0" if "i0 \<le> t" "t < i" for t
    proof (rule ccontr)
      assume "?bs ! t \<noteq> 0"
      then obtain j where j: "bit (?bs ! t) j" by (auto simp: bit_eq_iff)
      then have jW: "j < ?W" by (rule bit_imp_le_length)
      have "Suc t * ?W \<le> i * ?W" using that(2) by (intro mult_le_mono1) simp
      then have "t * ?W + j < r" using jW r by simp
      moreover have "i0 * ?W \<le> t * ?W + j" using that(1) by (simp add: mult_le_mono1 trans_le_add1)
      ultimately have "\<not> bit_of v (t * ?W + j)" by (intro mn)
      then show False using j jW by (simp add: bit_of_def)
    qed
    have lo: "\<not> bit (?bs ! i) j" if "j < m" for j
    proof
      assume j: "bit (?bs ! i) j"
      have "i0 * ?W \<le> i * ?W + j" using i0 by (simp add: mult_le_mono1 trans_le_add1)
      moreover have "i * ?W + j < r" using that r by simp
      ultimately have "\<not> bit_of v (i * ?W + j)" by (intro mn)
      then show False using j that m by (simp add: bit_of_def)
    qed
    show "find_loop path i0 (drop i0 ?bs) = Some r"
      unfolding r using i0 i z b lo by (intro find_loop_found) auto
  }
  {
    assume no: "\<forall>p. i0 * ?W \<le> p \<and> p < bitset_size v \<longrightarrow> test v p \<noteq> Some True"
    have "?bs ! t = 0" if "i0 \<le> t" "t < length ?bs" for t
    proof (rule ccontr)
      assume "?bs ! t \<noteq> 0"
      then obtain j where j: "bit (?bs ! t) j" by (auto simp: bit_eq_iff)
      then have jW: "j < ?W" by (rule bit_imp_le_length)
      have "t * ?W + j < ?n" using cc that(2) j by (rule check_consistency_bound)
      moreover have "i0 * ?W \<le> t * ?W + j" using that(1) by (simp add: mult_le_mono1 trans_le_add1)
      ultimately have "test v (t * ?W + j) \<noteq> Some True" using no by (simp add: bitset_size_def)
      then show False using j jW \<open>t * ?W + j < ?n\<close> by (simp add: test_eq bit_of_def)
    qed
    then show "find_loop path i0 (drop i0 ?bs) = Some npos"
      by (intro find_loop_none) auto
  }
qed

lemma find_first_correct:
  fixes v :: "'a::len dynamic_bitset"
  assumes cc: "check_consistency v"
  shows "\<exists>r. find_first path v = Some r \<and>
           (if \<exists>p<bitset_size v. test v p = Some True then first_set_from v 0 r else r = npos)"
proof (cases "\<exists>p<bitset_size v. test v p = Some True")
  case True
  then obtain r where r: "first_set_from v 0 r" using ex_first_set_from[of 0 _ v] by blast
  then have "find_first path v = Some r"
    using find_loop_correct(1)[OF cc, of 0 r path] by (simp add: find_first_def)
  then show ?thesis using True r by simp
next
  case False
  then have "find_first path v = Some npos"
    using find_loop_correct(2)[OF cc, of 0 path] by (simp add: find_first_def)
  then show ?thesis using False by auto
qed

lemma find_next_correct:
  fixes v :: "'a::len dynamic_bitset"
  assumes cc: "check_consistency v"
  shows "\<exists>r. find_next path v prev = Some r \<and>
           (if \<exists>p. prev < p \<and> p < bitset_size v \<and> test v p = Some True
            then first_set_from v (Suc prev) r else r = npos)"
proof (cases "bitset_empty v \<or> prev \<ge> bitset_size v - 1")
  case True
  then have "\<not> (\<exists>p. prev < p \<and> p < bitset_size v \<and> test v p = Some True)"
    by (auto simp: bitset_empty_def)
  then show ?thesis using True by (auto simp: find_next_def)
next
  case False
  let ?W = "LENGTH('a)" and ?bs = "m_blocks v" and ?n = "m_bits_number v"
  define s where "s = prev + 1"
  define fb where "fb = s div ?W"
  define fi where "fi = s mod ?W"
  define sh where "sh = drop_bit fi (?bs ! fb)"
  have s: "s = fb * ?W + fi" and fi: "fi < ?W" by (simp_all add: fb_def fi_def)
  have sn: "s < ?n" using False by (auto simp: s_def bitset_empty_def bitset_size_def)
  have fbl: "fb < length ?bs" unfolding fb_def using cc sn by (rule check_consistency_index)
  have e: "(\<lambda>k. Suc (prev + k)) = (+) (Suc prev)" by (rule ext) simp
  have fn: "find_next path v prev =
      (if sh \<noteq> 0 then map_option (\<lambda>k. s + k) (first_on path sh)
       else find_loop path (Suc fb) (drop (Suc fb) ?bs))"
    using False
    by (simp add: e add: find_next_def Let_def s_def fb_def fi_def sh_def block_index_def bit_index_def
        zero_block_def)
  have shb: "bit sh j = bit (?bs ! fb) (fi + j)" for j
    by (simp add: sh_def bit_simps)
  have pos: "s + j < ?n \<and> test v (s + j) = Some True" if "bit sh j" for j
  proof -
    have b: "bit (?bs ! fb) (fi + j)" using that by (simp add: shb)
    then have "fi + j < ?W" by (rule bit_imp_le_length)
    moreover have "fb * ?W + (fi + j) < ?n" using cc fbl b by (rule check_consistency_bound)
    ultimately show ?thesis using b by (simp add: test_eq bit_of_def s add.assoc)
  qed
  show ?thesis
  proof (cases "\<exists>p. prev < p \<and> p < bitset_size v \<and> test v p = Some True")
    case ex: True
    then obtain p where "s \<le> p" "p < bitset_size v" "test v p = Some True"
      by (auto simp: s_def Suc_le_eq)
    then obtain r where r: "first_set_from v s r"
      using ex_first_set_from[of s p v] by blast
    define i where "i = r div ?W"
    define m where "m = r mod ?W"
    have rim: "r = i * ?W + m" and m: "m < ?W" by (simp_all add: i_def m_def)
    have sr: "s \<le> r" and rn: "r < ?n" and rb: "bit (?bs ! i) m"
      and mn: "\<And>q. s \<le> q \<Longrightarrow> q < r \<Longrightarrow> test v q = Some False"
      using r by (auto simp: first_set_from_def test_eq bitset_size_def bit_of_def i_def m_def split: if_splits)
    have fbi: "fb \<le> i" unfolding fb_def i_def using sr by (rule div_le_mono)
    have "find_next path v prev = Some r"
    proof (cases "i = fb")
      case True
      have fim: "fi \<le> m" using sr True s rim by simp
      have b: "bit sh (m - fi)" using rb True fim by (simp add: shb)
      have lo: "\<not> bit sh j" if "j < m - fi" for j
      proof
        assume "bit sh j"
        then have "test v (s + j) = Some True" using pos by simp
        moreover have "test v (s + j) = Some False"
          using that True s rim by (intro mn) simp_all
        ultimately show False by simp
      qed
      have "sh \<noteq> 0" using b by auto
      moreover have "first_on path sh = Some (m - fi)" using b lo by (intro first_on_found) auto
      moreover have "s + (m - fi) = r" using fim True s rim by simp
      ultimately show ?thesis by (simp add: fn)
    next
      case F: False
      then have "Suc fb \<le> i" using fbi by simp
      then have le: "Suc fb * ?W \<le> i * ?W" by (rule mult_le_mono1)
      have sh0: "sh = 0"
      proof (rule ccontr)
        assume "sh \<noteq> 0"
        then obtain j where j: "bit sh j" by (auto simp: bit_eq_iff)
        then have "fi + j < ?W" unfolding shb by (rule bit_imp_le_length)
        then have "s + j < r" using le s rim by simp
        then have "test v (s + j) = Some False" by (intro mn) simp_all
        then show False using pos[OF j] by simp
      qed
      have "first_set_from v (Suc fb * ?W) r"
        using r le rim s fi by (auto simp: first_set_from_def)
      then have "find_loop path (Suc fb) (drop (Suc fb) ?bs) = Some r"
        by (rule find_loop_correct(1)[OF cc])
      then show ?thesis using sh0 by (simp add: fn)
    qed
    then show ?thesis using ex r by (auto simp: s_def)
  next
    case nex: False
    have sh0: "sh = 0"
    proof (rule ccontr)
      assume "sh \<noteq> 0"
      then obtain j where j: "bit sh j" by (auto simp: bit_eq_iff)
      show False using pos[OF j] nex by (auto simp: s_def bitset_size_def)
    qed
    have "\<forall>p. Suc fb * ?W \<le> p \<and> p < bitset_size v \<longrightarrow> test v p \<noteq> Some True"
    proof (intro allI impI)
      fix p assume p: "Suc fb * ?W \<le> p \<and> p < bitset_size v"
      then have "prev < p" using s fi by (simp add: s_def)
      then show "test v p \<noteq> Some True" using nex p by blast
    qed
    then have "find_loop path (Suc fb) (drop (Suc fb) ?bs) = Some npos"
      by (rule find_loop_correct(2)[OF cc])
    then show ?thesis using sh0 nex by (auto simp: fn)
  qed
qed

section \<open>The order of bitsets\<close>

lemma less_loop_cases:
  "(less_loop xs ys k = None \<and> less_loop ys xs k = None \<and> (\<forall>i. 0 < i \<and> i \<le> k \<longrightarrow> xs ! i = ys ! i)) \<or>
   (\<exists>b. less_loop xs ys k = Some b \<and> less_loop ys xs k = Some (\<not> b) \<and>
        (\<exists>i. 0 < i \<and> i \<le> k \<and> xs ! i \<noteq> ys ! i))"
proof (induction k)
  case 0 show ?case by simp
next
  case (Suc k)
  show ?case
  proof (cases "xs ! Suc k = ys ! Suc k")
    case True
    have "(\<forall>i. 0 < i \<and> i \<le> Suc k \<longrightarrow> xs ! i = ys ! i) = (\<forall>i. 0 < i \<and> i \<le> k \<longrightarrow> xs ! i = ys ! i)"
      using True by (auto simp: le_Suc_eq)
    moreover have "(\<exists>i. 0 < i \<and> i \<le> k \<and> xs ! i \<noteq> ys ! i) \<Longrightarrow> (\<exists>i. 0 < i \<and> i \<le> Suc k \<and> xs ! i \<noteq> ys ! i)"
      by (auto simp: le_Suc_eq)
    ultimately show ?thesis using Suc True by auto
  next
    case False
    then have "(xs ! Suc k < ys ! Suc k) = (\<not> ys ! Suc k < xs ! Suc k)" by auto
    then show ?thesis using False by auto
  qed
qed

lemma list_ex_rev_upt: "list_ex P (rev [a..<b]) = (\<exists>i. a \<le> i \<and> i < b \<and> P i)"
  by (auto simp: list_ex_iff)

lemma trichotomy_equal_size:
  fixes A B :: "'a::len dynamic_bitset"
  assumes A: "check_consistency A" and B: "check_consistency B"
    and sz: "m_bits_number A = m_bits_number B"
  shows "(operator_less A B \<and> \<not> operator_less B A \<and> \<not> operator_eq A B) \<or>
         (\<not> operator_less A B \<and> operator_less B A \<and> \<not> operator_eq A B) \<or>
         (\<not> operator_less A B \<and> \<not> operator_less B A \<and> operator_eq A B)"
proof (cases "m_bits_number A = 0")
  case True
  then have "m_blocks A = []" "m_blocks B = []"
    using check_consistency_length[OF A] check_consistency_length[OF B] sz
    by (simp_all add: blocks_required_def)
  then show ?thesis using True sz by (simp add: operator_less_def operator_eq_def bitset_size_def)
next
  case False
  let ?L = "m_blocks A" and ?R = "m_blocks B"
  have len: "length ?L = length ?R" "length ?L > 0"
    using check_consistency_length[OF A] check_consistency_length[OF B] sz False
    by (auto simp: blocks_required_def)
  have lab: "operator_less A B =
      (case less_loop ?L ?R (length ?L - 1) of Some b \<Rightarrow> b | None \<Rightarrow> ?L ! 0 < ?R ! 0)"
    and lba: "operator_less B A =
      (case less_loop ?R ?L (length ?L - 1) of Some b \<Rightarrow> b | None \<Rightarrow> ?R ! 0 < ?L ! 0)"
    using False sz len by (simp_all add: operator_less_def bitset_size_def)
  have eq: "operator_eq A B = (?L = ?R)" using sz by (simp add: operator_eq_def)
  from less_loop_cases[of ?L ?R "length ?L - 1"] show ?thesis
  proof (elim disjE conjE exE)
    assume n: "less_loop ?L ?R (length ?L - 1) = None" "less_loop ?R ?L (length ?L - 1) = None"
      and e: "\<forall>i. 0 < i \<and> i \<le> length ?L - 1 \<longrightarrow> ?L ! i = ?R ! i"
    show ?thesis
    proof (cases "?L ! 0 = ?R ! 0")
      case True
      have "?L ! i = ?R ! i" if "i < length ?L" for i
        using e True that by (cases "i = 0") auto
      then have "?L = ?R" using len(1) by (intro nth_equalityI) auto
      then show ?thesis using n by (simp add: lab lba eq)
    next
      case F: False
      then have "?L \<noteq> ?R" by auto
      moreover have "(?L ! 0 < ?R ! 0) = (\<not> ?R ! 0 < ?L ! 0)" using F by auto
      ultimately show ?thesis using n by (auto simp add: lab lba eq)
    qed
  next
    fix b i assume s: "less_loop ?L ?R (length ?L - 1) = Some b"
      "less_loop ?R ?L (length ?L - 1) = Some (\<not> b)" and i: "?L ! i \<noteq> ?R ! i"
    have "?L \<noteq> ?R" using i by auto
    then show ?thesis using s by (auto simp add: lab lba eq)
  qed
qed

lemma trichotomy_other_size:
  fixes A B :: "'a::len dynamic_bitset"
  assumes sz: "m_bits_number A \<noteq> m_bits_number B"
  shows "(operator_less A B \<and> \<not> operator_less B A \<and> \<not> operator_eq A B) \<or>
         (\<not> operator_less A B \<and> operator_less B A \<and> \<not> operator_eq A B)"
proof -
  let ?L = "m_blocks A" and ?R = "m_blocks B"
  let ?s = "min (length ?L) (length ?R)" and ?l = "max (length ?L) (length ?R)"
  have eq: "\<not> operator_eq A B" using sz by (simp add: operator_eq_def)
  consider "m_bits_number A = 0" | "m_bits_number B = 0" | "m_bits_number A \<noteq> 0" "m_bits_number B \<noteq> 0"
    by blast
  then show ?thesis
  proof cases
    case 1 then show ?thesis using sz eq by (simp add: operator_less_def bitset_size_def)
  next
    case 2 then show ?thesis using sz eq by (simp add: operator_less_def bitset_size_def)
  next
    case 3
    define rl where "rl = (m_bits_number B > m_bits_number A)"
    have nrl: "(m_bits_number A > m_bits_number B) = (\<not> rl)" using sz by (auto simp: rl_def)
    define longest where "longest = (if rl then B else A)"
    define hi where "hi = list_ex (\<lambda>i. m_blocks longest ! i \<noteq> 0) (rev [?s..<?l])"
    have lab: "operator_less A B =
        (if hi then rl
         else case less_loop ?L ?R (?s - 1) of Some b \<Rightarrow> b
              | None \<Rightarrow> if ?L ! 0 \<noteq> ?R ! 0 then ?L ! 0 < ?R ! 0 else rl)"
      using 3 sz by (simp add: operator_less_def bitset_size_def Let_def rl_def hi_def longest_def
          split: option.split)
    have lba: "operator_less B A =
        (if hi then \<not> rl
         else case less_loop ?R ?L (?s - 1) of Some b \<Rightarrow> b
              | None \<Rightarrow> if ?R ! 0 \<noteq> ?L ! 0 then ?R ! 0 < ?L ! 0 else \<not> rl)"
      using 3 sz nrl
      by (simp add: operator_less_def bitset_size_def Let_def hi_def longest_def min.commute max.commute
          split: option.split)
    from less_loop_cases[of ?L ?R "?s - 1"] show ?thesis
    proof (elim disjE conjE exE)
      assume n: "less_loop ?L ?R (?s - 1) = None" "less_loop ?R ?L (?s - 1) = None"
      have "(?L ! 0 < ?R ! 0) = (\<not> ?R ! 0 < ?L ! 0)" if "?L ! 0 \<noteq> ?R ! 0" using that by auto
      then show ?thesis using n eq by (auto simp add: lab lba)
    next
      fix b assume "less_loop ?L ?R (?s - 1) = Some b" "less_loop ?R ?L (?s - 1) = Some (\<not> b)"
      then show ?thesis using eq by (auto simp add: lab lba)
    qed
  qed
qed

lemma unat_sum_bits: "unat (b::'a::len word) = (\<Sum>j\<in>{j. bit b j}. 2 ^ j)"
proof -
  have "unat b = take_bit LENGTH('a) (unat b)" by (simp add: take_bit_nat_eq_self unsigned_less)
  also have "\<dots> = (\<Sum>k = 0..<LENGTH('a). push_bit k (of_bool (bit (unat b) k)))"
    by (rule take_bit_sum)
  also have "\<dots> = (\<Sum>k = 0..<LENGTH('a). if bit b k then 2 ^ k else 0)"
    by (intro sum.cong) (auto simp: bit_simps)
  also have "\<dots> = (\<Sum>j\<in>{j. bit b j}. 2 ^ j)"
    using bit_imp_le_length[of b]
    by (subst sum.inter_filter[symmetric]) (auto intro!: sum.cong)
  finally show ?thesis .
qed

lemma sum_bits_set: "(\<Sum>p\<in>bits_set bs. 2 ^ p) = horner_sum unat (2 ^ LENGTH('a)) (bs :: 'a::len word list)"
proof (induction bs rule: rev_induct)
  case Nil show ?case by (simp add: bits_set_def)
next
  case (snoc b bs)
  let ?B = "(\<lambda>j. length bs * LENGTH('a) + j) ` {j. bit b j}"
  have d: "bits_set bs \<inter> ?B = {}" by (auto simp: bits_set_def)
  have "(\<Sum>p\<in>bits_set bs \<union> ?B. 2 ^ p) = (\<Sum>p\<in>bits_set bs. 2 ^ p) + (\<Sum>p\<in>?B. (2::nat) ^ p)"
    using d by (intro sum.union_disjoint) simp_all
  moreover have "(\<Sum>p\<in>?B. (2::nat) ^ p) = (\<Sum>j\<in>{j. bit b j}. 2 ^ (length bs * LENGTH('a) + j))"
    by (subst sum.reindex) (simp_all add: inj_on_def)
  moreover have "\<dots> = (2 ^ LENGTH('a)) ^ length bs * unat b"
  proof -
    have "(2::nat) ^ (length bs * LENGTH('a) + j) = (2 ^ LENGTH('a)) ^ length bs * 2 ^ j" for j
      by (simp add: power_add power_mult[symmetric] mult.commute)
    then show ?thesis by (simp add: unat_sum_bits sum_distrib_left)
  qed
  ultimately show ?case using snoc.IH by (simp add: bits_set_snoc horner_sum_append)
qed

lemma magnitude_blocks:
  fixes v :: "'a::len dynamic_bitset"
  assumes "check_consistency v"
  shows "magnitude v = horner_sum unat (2 ^ LENGTH('a)) (m_blocks v)"
proof -
  have "magnitude v = (\<Sum>p\<in>{p. p < bitset_size v \<and> test v p = Some True}. 2 ^ p)"
    unfolding magnitude_def by (subst sum.inter_filter[symmetric]) (auto intro!: sum.cong)
  then show ?thesis using set_positions_eq_bits_set[OF assms] by (simp add: sum_bits_set)
qed

lemma horner_sum_unat_bound:
  "horner_sum unat (2 ^ LENGTH('a)) (bs :: 'a::len word list) < (2 ^ LENGTH('a)) ^ length bs"
proof (induction bs)
  case Nil show ?case by simp
next
  case (Cons b bs)
  let ?M = "2 ^ LENGTH('a) :: nat"
  have 1: "unat b < ?M" by (rule unsigned_less)
  have "Suc (horner_sum unat ?M bs) \<le> ?M ^ length bs" using Cons by simp
  then have "?M * Suc (horner_sum unat ?M bs) \<le> ?M * ?M ^ length bs" by (rule mult_le_mono2)
  then have 2: "?M + ?M * horner_sum unat ?M bs \<le> ?M * ?M ^ length bs" by simp
  show ?case using 1 2 by (simp del: unsigned_less)
qed

lemma horner_sum_unat_inj:
  assumes "length xs = length ys"
    "horner_sum unat (2 ^ LENGTH('a)) (xs :: 'a::len word list) = horner_sum unat (2 ^ LENGTH('a)) ys"
  shows "xs = ys"
  using assms
proof (induction xs ys rule: list_induct2)
  case Nil show ?case by simp
next
  case (Cons x xs y ys)
  let ?M = "2 ^ LENGTH('a) :: nat"
  let ?a = "horner_sum unat ?M xs" and ?b = "horner_sum unat ?M ys"
  have e: "unat x + ?M * ?a = unat y + ?M * ?b" using Cons.prems by simp
  have x: "unat x < ?M" and y: "unat y < ?M" by (rule unsigned_less)+
  have "(unat x + ?M * ?a) mod ?M = unat x" "(unat y + ?M * ?b) mod ?M = unat y"
    using x y by simp_all
  then have u: "unat x = unat y" using e by simp
  then have "?M * ?a = ?M * ?b" using e by simp
  then have "?a = ?b" by simp
  then show ?case using Cons.IH u by (simp add: word_unat_eq_iff)
qed

lemma blocks_required_ceil:
  assumes "0 < W"
  shows "blocks_required W k = (k + W - 1) div W"
proof -
  define q where "q = k div W"
  define r where "r = k mod W"
  have r: "r < W" using assms by (simp add: r_def)
  have lhs: "blocks_required W k = q + (if r > 0 then 1 else 0)"
    by (simp add: blocks_required_def q_def r_def)
  have rhs: "(k + W - 1) div W = (q * W + r + W - 1) div W"
    by (simp add: q_def r_def)
  show ?thesis
  proof (cases "r = 0")
    case True
    have "(q * W + r + W - 1) div W = q"
      using assms True by (intro div_nat_eqI) (auto simp: algebra_simps)
    then show ?thesis using True lhs rhs by simp
  next
    case False
    have "(q * W + r + W - 1) div W = Suc q"
      using assms False r by (intro div_nat_eqI) (auto simp: algebra_simps)
    then show ?thesis using False lhs rhs by simp
  qed
qed

lemma blocks_required_mono:
  assumes "0 < W" "m \<le> n"
  shows "blocks_required W m \<le> blocks_required W n"
proof -
  have "(m + W - 1) div W \<le> (n + W - 1) div W" using assms by (intro div_le_mono) simp
  then show ?thesis using assms(1) by (simp add: blocks_required_ceil)
qed

lemma equal_magnitude_shorter_less:
  fixes A B :: "'a::len dynamic_bitset"
  assumes A: "check_consistency A" and B: "check_consistency B"
    and mg: "magnitude A = magnitude B" and sz: "bitset_size A < bitset_size B"
  shows "operator_less A B"
proof (cases "m_bits_number A = 0")
  case True
  then show ?thesis using sz by (simp add: operator_less_def bitset_size_def)
next
  case False
  let ?L = "m_blocks A" and ?R = "m_blocks B" and ?M = "2 ^ LENGTH('a) :: nat"
  let ?s = "length ?L"
  have lenL: "?s = blocks_required LENGTH('a) (m_bits_number A)" using A by (rule check_consistency_length)
  have lenR: "length ?R = blocks_required LENGTH('a) (m_bits_number B)" using B by (rule check_consistency_length)
  have le: "?s \<le> length ?R" unfolding lenL lenR using sz
    by (intro blocks_required_mono) (simp_all add: bitset_size_def)
  have pos: "0 < ?s" using False lenL by (auto simp: blocks_required_def)
  have hs: "horner_sum unat ?M ?L = horner_sum unat ?M ?R"
    using mg by (simp add: magnitude_blocks[OF A] magnitude_blocks[OF B])
  have "horner_sum unat ?M ?R = horner_sum unat ?M (take ?s ?R) + ?M ^ ?s * horner_sum unat ?M (drop ?s ?R)"
    using horner_sum_append[of unat ?M "take ?s ?R" "drop ?s ?R"] le by simp
  moreover have "horner_sum unat ?M ?L < ?M ^ ?s" by (rule horner_sum_unat_bound)
  moreover have "horner_sum unat ?M (take ?s ?R) < ?M ^ ?s"
    using horner_sum_unat_bound[of "take ?s ?R"] le by simp
  ultimately have "horner_sum unat ?M ?L = horner_sum unat ?M (take ?s ?R)"
    using hs
    by (metis add_diff_cancel_left' less_imp_add_positive mod_less mod_mult_self2 add.commute)
  then have eq: "?L = take ?s ?R" using le by (intro horner_sum_unat_inj) simp_all
  have nth: "?L ! i = ?R ! i" if "i < ?s" for i
    using arg_cong[OF eq, of "\<lambda>xs. xs ! i"] that by simp
  have "less_loop ?L ?R (?s - 1) = None"
    using less_loop_cases[of ?L ?R "?s - 1"] nth pos by (auto simp: not_less)
  moreover have "?L ! 0 = ?R ! 0" using nth pos by simp
  ultimately show ?thesis
    using False sz le by (simp add: operator_less_def bitset_size_def Let_def min_def)
qed

section \<open>Construction\<close>

lemma bit_of_sanitize:
  fixes v :: "'a::len dynamic_bitset"
  assumes "length (m_blocks v) = blocks_required LENGTH('a) (m_bits_number v)" "p < m_bits_number v"
  shows "bit_of (sanitize v) p = bit_of v p"
proof -
  have "p div LENGTH('a) < length (m_blocks v)"
    using assms by (simp add: div_less_blocks_required)
  then show ?thesis using bit_sanitize[OF assms(1), of "p div LENGTH('a)" "p mod LENGTH('a)"] assms(2)
    by (simp add: bit_of_def)
qed

lemma init_val_blocks:
  fixes init_val :: "64 word" and n :: nat
  assumes W: "LENGTH('a::len) \<in> {8, 16, 32, 64}"
  defines "rb \<equiv> sizeof_unsigned_long_long div sizeof_block_type (zero_block :: 'a word)"
  defines "bs0 \<equiv> replicate n (0 :: 'a word)"
  defines "bs \<equiv> (if rb = 1 then bs0[0 := ucast init_val]
                 else fold (\<lambda>i b. b[i := ucast (drop_bit (i * LENGTH('a)) init_val AND
                                            (ucast (one_block :: 'a word) :: 64 word))])
                        [0..<min (length bs0) rb] bs0)"
  shows "rb * LENGTH('a) = 64" "length bs = n"
    "i < n \<Longrightarrow> bit (bs ! i) j = (i < rb \<and> j < LENGTH('a) \<and> bit init_val (i * LENGTH('a) + j))"
proof -
  show rbW: "rb * LENGTH('a) = 64"
    using W by (auto simp: rb_def sizeof_unsigned_long_long_def sizeof_block_type_def)
  have rb1: "(rb = 1) = (LENGTH('a) = 64)"
    using W by (auto simp: rb_def sizeof_unsigned_long_long_def sizeof_block_type_def)
  let ?f = "\<lambda>i (x :: 'a word). (ucast (drop_bit (i * LENGTH('a)) init_val AND
                                            (ucast (one_block :: 'a word) :: 64 word)) :: 'a word)"
  have bf: "bit (?f i x) j = (j < LENGTH('a) \<and> bit init_val (i * LENGTH('a) + j))" for i x j
    using W by (auto simp: bit_simps one_block_def zero_block_def dest: bit_imp_le_length)
  note fu = fold_update_upt[where f = ?f and a = 0 and bs = bs0 and n = "min (length bs0) rb"]
  show "length bs = n" using fu(1) by (simp add: bs_def bs0_def)
  show "bit (bs ! i) j = (i < rb \<and> j < LENGTH('a) \<and> bit init_val (i * LENGTH('a) + j))" if "i < n"
  proof (cases "rb = 1")
    case True
    then show ?thesis using that W rb1
      by (cases "i = 0") (auto simp: bs_def bs0_def bit_simps dest: bit_imp_le_length)
  next
    case False
    have "bs ! i = (if i < min n rb then ?f i (bs0 ! i) else bs0 ! i)"
      using False fu(2)[of i] that by (simp add: bs_def bs0_def)
    then show ?thesis using that by (auto simp: bf bs0_def)
  qed
qed

section \<open>Strings\<close>

lemma bitset_eqI:
  fixes v w :: "'a::len dynamic_bitset"
  assumes v: "check_consistency v" and w: "check_consistency w"
    and n: "m_bits_number v = m_bits_number w"
    and b: "\<And>p. p < m_bits_number v \<Longrightarrow> bit_of v p = bit_of w p"
  shows "v = w"
proof -
  let ?W = "LENGTH('a)"
  have len: "length (m_blocks v) = length (m_blocks w)"
    using check_consistency_length[OF v] check_consistency_length[OF w] n by simp
  have "m_blocks v ! i = m_blocks w ! i" if i: "i < length (m_blocks v)" for i
  proof (rule bit_word_eqI)
    fix j assume j: "j < ?W"
    show "bit (m_blocks v ! i) j = bit (m_blocks w ! i) j"
    proof (cases "i * ?W + j < m_bits_number v")
      case True
      then show ?thesis using b[of "i * ?W + j"] j by (simp add: bit_of_def)
    next
      case False
      then show ?thesis
        using check_consistency_bound[OF v i, of j] check_consistency_bound[OF w, of i j] i len n
        by auto
    qed
  qed
  then have "m_blocks v = m_blocks w" using len by (intro nth_equalityI) auto
  then show ?thesis using n by simp
qed

lemma to_string_inner:
  fixes b :: "'a::len word"
  assumes "length str = len"
  shows "fold (\<lambda>i_bit (str, msk).
                 ((if b AND msk \<noteq> zero_block then str[len - (B + i_bit + 1) := one] else str),
                  push_bit 1 msk))
           [0..<L] (str, 1) =
         (map (\<lambda>k. if \<exists>j<L. bit b j \<and> k = len - (B + j + 1) then one else str ! k) [0..<len],
          2 ^ L)"
proof -
  define F where "F = (\<lambda>(i_bit::nat) (str, msk).
                 ((if b AND msk \<noteq> zero_block then str[len - (B + i_bit + 1) := one] else str),
                  push_bit 1 msk))"
  define G where "G L = map (\<lambda>k. if \<exists>j<L. bit b j \<and> k = len - (B + j + 1) then one else str ! k) [0..<len]"
    for L
  have "fold F [0..<L] (str, 1) = (G L, 2 ^ L)"
  proof (induction L)
    case 0
    show ?case using assms by (auto simp: G_def intro: nth_equalityI)
  next
    case (Suc L)
    have up: "(if bit b L then (G L)[len - (B + L + 1) := one] else G L) = G (Suc L)"
      unfolding G_def by (intro nth_equalityI) (auto simp: nth_list_update less_Suc_eq)
    have "fold F [0..<Suc L] (str, 1) = F L (G L, 2 ^ L)" using Suc by simp
    also have "\<dots> = ((if bit b L then (G L)[len - (B + L + 1) := one] else G L), 2 ^ Suc L)"
      by (simp add: F_def zero_block_def and_exp_eq_0_iff_not_bit push_bit_eq_mult)
    also have "\<dots> = (G (Suc L), 2 ^ Suc L)" by (simp only: up)
    finally show ?case .
  qed
  then show ?thesis unfolding F_def G_def .
qed

lemma to_string_correct:
  fixes v :: "'a::len dynamic_bitset"
  assumes cc: "check_consistency v"
  shows "length (to_string v zero one) = m_bits_number v"
    and "k < m_bits_number v \<Longrightarrow>
           to_string v zero one ! k = (if bit_of v (m_bits_number v - 1 - k) then one else zero)"
proof -
  let ?W = "LENGTH('a)" and ?n = "m_bits_number v" and ?bs = "m_blocks v"
  define step where "step = (\<lambda>i_block str.
                 if ?bs ! i_block = zero_block then str
                 else
                   let limit = (if i_block * ?W < ?n then ?n - i_block * ?W else ?W)
                   in fst (fold (\<lambda>i_bit (str, msk).
                                   ((if ?bs ! i_block AND msk \<noteq> zero_block
                                     then str[?n - (i_block * ?W + i_bit + 1) := one]
                                     else str),
                                    push_bit 1 msk))
                             [0..<limit] (str, 1)))"
  define H where "H t = map (\<lambda>k. if \<exists>i<t. \<exists>j. bit (?bs ! i) j \<and> k = ?n - (i * ?W + j + 1)
                                   then one else zero) [0..<?n]" for t
  have st: "fold step [0..<t] (replicate ?n zero) = H t" if "t \<le> length ?bs" for t
    using that
  proof (induction t)
    case 0
    show ?case by (auto simp: H_def intro: nth_equalityI)
  next
    case (Suc t)
    have t: "t < length ?bs" using Suc.prems by simp
    have lim: "j < ?n - t * ?W" if "bit (?bs ! t) j" for j
      using check_consistency_bound[OF cc t that] by simp
    have "step t (H t) = H (Suc t)"
    proof (cases "?bs ! t = 0")
      case True
      have "H (Suc t) = H t" unfolding H_def using True by (auto simp: less_Suc_eq)
      then show ?thesis using True by (simp add: step_def zero_block_def)
    next
      case False
      then obtain j0 where "bit (?bs ! t) j0" by (auto simp: bit_eq_iff)
      then have tn: "t * ?W < ?n" using lim[of j0] by simp
      have lenH: "length (H t) = ?n" by (simp add: H_def)
      have "step t (H t) = fst (fold (\<lambda>i_bit (str, msk).
                                   ((if ?bs ! t AND msk \<noteq> zero_block
                                     then str[?n - (t * ?W + i_bit + 1) := one]
                                     else str),
                                    push_bit 1 msk))
                             [0..<?n - t * ?W] (H t, 1))"
        using False tn by (simp add: step_def zero_block_def)
      also have "\<dots> = map (\<lambda>k. if \<exists>j<?n - t * ?W. bit (?bs ! t) j \<and> k = ?n - (t * ?W + j + 1)
                                  then one else H t ! k) [0..<?n]"
        by (simp only: to_string_inner[OF lenH] fst_conv)
      also have "\<dots> = H (Suc t)"
        unfolding H_def using lim by (intro nth_equalityI) (auto simp: less_Suc_eq)
      finally show ?thesis .
    qed
    then show ?case using Suc by simp
  qed
  have ts: "to_string v zero one = H (length ?bs)"
    using st[of "length ?bs"] by (simp add: to_string_def bitset_size_def step_def)
  show "length (to_string v zero one) = ?n" by (simp add: ts H_def)
  show "to_string v zero one ! k = (if bit_of v (?n - 1 - k) then one else zero)" if k: "k < ?n"
  proof -
    let ?p = "?n - 1 - k"
    have p: "?p < ?n" using k by simp
    have "(\<exists>i<length ?bs. \<exists>j. bit (?bs ! i) j \<and> k = ?n - (i * ?W + j + 1)) = bit_of v ?p"
    proof
      assume "\<exists>i<length ?bs. \<exists>j. bit (?bs ! i) j \<and> k = ?n - (i * ?W + j + 1)"
      then obtain i j where i: "i < length ?bs" and j: "bit (?bs ! i) j" and e: "k = ?n - (i * ?W + j + 1)"
        by blast
      have "i * ?W + j < ?n" using cc i j by (rule check_consistency_bound)
      then have "?p = i * ?W + j" using e by simp
      moreover have "j < ?W" using j by (rule bit_imp_le_length)
      ultimately show "bit_of v ?p" using j by (simp add: bit_of_def)
    next
      assume b: "bit_of v ?p"
      have "?p div ?W < length ?bs" using cc p by (rule check_consistency_index)
      moreover have "k = ?n - (?p div ?W * ?W + ?p mod ?W + 1)" using k by simp
      ultimately show "\<exists>i<length ?bs. \<exists>j. bit (?bs ! i) j \<and> k = ?n - (i * ?W + j + 1)"
        using b unfolding bit_of_def by blast
    qed
    then show ?thesis using k by (simp add: ts H_def)
  qed
qed

lemma bit_bit_mask: "bit (bit_mask t :: 'a::len word) j = (j = t mod LENGTH('a))"
  by (auto simp: bit_mask_def bit_index_def bit_simps)

lemma init_from_string_correct:
  fixes str :: "'c list"
  defines "W \<equiv> LENGTH('a::len)"
  assumes pos: "pos < length str"
    and sz: "sz = min n (length str - pos)"
    and chars: "\<And>k. pos \<le> k \<Longrightarrow> k < pos + sz \<Longrightarrow> str ! k = zero \<or> str ! k = one"
  shows "\<exists>w :: 'a dynamic_bitset. init_from_string str pos n zero one = Some w \<and>
           m_bits_number w = sz \<and> check_consistency w \<and>
           (\<forall>i. i < sz \<longrightarrow> bit_of w i = (str ! ((pos + sz - 1) - i) = one))"
proof -
  define step :: "nat \<Rightarrow> 'a dynamic_bitset option \<Rightarrow> 'a dynamic_bitset option" where
    "step = (\<lambda>i r. case r of
                          None \<Rightarrow> None
                        | Some v \<Rightarrow>
                            let c = str ! ((pos + sz - 1) - i)
                            in if \<not> (c = zero \<or> c = one) then None
                               else if c = one then set_pos v i True
                               else Some v)"
  define z :: "'a dynamic_bitset" where
    "z = \<lparr>m_blocks = replicate (blocks_required W sz) zero_block, m_bits_number = sz\<rparr>"
  define J :: "nat \<Rightarrow> 'a dynamic_bitset \<Rightarrow> bool" where
    "J t w = (m_bits_number w = sz \<and> length (m_blocks w) = blocks_required W sz \<and>
              (\<forall>i<length (m_blocks w). \<forall>j. bit (m_blocks w ! i) j =
                  (j < W \<and> i * W + j < t \<and> str ! ((pos + sz - 1) - (i * W + j)) = one)))" for t w
  have loop: "\<exists>w. fold step [0..<t] (Some z) = Some w \<and> J t w" if "t \<le> sz" for t
    using that
  proof (induction t)
    case 0
    show ?case by (simp add: J_def z_def zero_block_def)
  next
    case (Suc t)
    then obtain w where w: "fold step [0..<t] (Some z) = Some w" and J: "J t w" by auto
    have t: "t < sz" using Suc.prems by simp
    have fs: "fold step [0..<Suc t] (Some z) = step t (Some w)" using w by simp
    let ?c = "str ! ((pos + sz - 1) - t)"
    have c: "?c = zero \<or> ?c = one" using t by (intro chars) simp_all
    have pc: "(i * W + j < Suc t) = (i * W + j < t \<or> (i = t div W \<and> j = t mod W))" if "j < W" for i j
    proof -
      have "(i * W + j = t) = (i = t div W \<and> j = t mod W)" using that by auto
      then show ?thesis by (auto simp: less_Suc_eq)
    qed
    show ?case
    proof (cases "?c = one")
      case True
      let ?bs = "m_blocks w"
      let ?w = "w\<lparr>m_blocks := ?bs[t div W := ?bs ! (t div W) OR bit_mask t]\<rparr>"
      have "set_pos w t True = Some ?w"
        using J t by (simp add: set_pos_def J_def bitset_size_def block_index_def W_def Let_def)
      then have f: "fold step [0..<Suc t] (Some z) = Some ?w"
        unfolding fs using True by (simp add: step_def)
      have td: "t div W < length ?bs" using J t by (simp add: J_def W_def div_less_blocks_required)
      have "bit (m_blocks ?w ! i) j =
              (j < W \<and> i * W + j < Suc t \<and> str ! ((pos + sz - 1) - (i * W + j)) = one)"
        if i: "i < length ?bs" for i j
      proof (cases "j < W")
        case jW: True
        have "bit (m_blocks ?w ! i) j = (bit (?bs ! i) j \<or> (i = t div W \<and> j = t mod W))"
          using i td by (auto simp: nth_list_update bit_simps bit_bit_mask W_def)
        then show ?thesis using J i jW True pc[OF jW, of i] by (auto simp: J_def)
      next
        case False
        then have "\<not> bit (m_blocks ?w ! i) j" using bit_imp_le_length[of "m_blocks ?w ! i" j]
          by (auto simp: W_def)
        then show ?thesis using False by simp
      qed
      then have "J (Suc t) ?w" using J by (simp add: J_def)
      then show ?thesis using f by blast
    next
      case False
      then have f: "fold step [0..<Suc t] (Some z) = Some w"
        unfolding fs using c by (simp add: step_def)
      have "bit (m_blocks w ! i) j =
              (j < W \<and> i * W + j < Suc t \<and> str ! ((pos + sz - 1) - (i * W + j)) = one)"
        if i: "i < length (m_blocks w)" for i j
      proof (cases "j < W")
        case jW: True
        have "i * W + j = t" if "i = t div W \<and> j = t mod W" using that by auto
        then show ?thesis using J i jW False pc[OF jW, of i] by (auto simp: J_def)
      next
        case F: False
        then show ?thesis using J i by (auto simp: J_def)
      qed
      then have "J (Suc t) w" using J by (simp add: J_def)
      then show ?thesis using f by blast
    qed
  qed
  obtain w where w: "fold step [0..<sz] (Some z) = Some w" and J: "J sz w" using loop[of sz] by auto
  have r: "init_from_string str pos n zero one = Some w"
    using pos w unfolding init_from_string_def sz step_def z_def W_def by (simp add: Let_def)
  have cc: "check_consistency w" using J by (auto simp: check_consistency_iff J_def W_def)
  have "bit_of w i = (str ! ((pos + sz - 1) - i) = one)" if "i < sz" for i
  proof -
    have "i div W < length (m_blocks w)" using J that by (simp add: J_def W_def div_less_blocks_required)
    then show ?thesis using J that by (simp add: J_def bit_of_def W_def)
  qed
  then show ?thesis using r cc J by (auto simp: J_def)
qed

section \<open>Appending blocks\<close>

lemma append_loop:
  "(case fold (\<lambda>b (bs, n, block).
                  (bs @ [block OR push_bit e b], n + LENGTH('a), drop_bit u b))
           rest (bs0, m, blk :: 'a::len word)
    of (bs1, n1, block1) \<Rightarrow> (bs1 @ [block1], n1 + LENGTH('a))) =
   (bs0 @ carried_blocks e u blk rest, m + (length rest + 1) * LENGTH('a))"
  by (induction rest arbitrary: bs0 m blk) simp_all

lemma length_carried_blocks [simp]: "length (carried_blocks e u blk rest) = Suc (length rest)"
  by (induction rest arbitrary: blk) simp_all

lemma nth_carried_blocks:
  "k \<le> length rest \<Longrightarrow>
   carried_blocks e u (drop_bit u b0) rest ! k =
     drop_bit u ((b0 # rest) ! k) OR (if k < length rest then push_bit e (rest ! k) else 0)"
proof (induction rest arbitrary: b0 k)
  case Nil then show ?case by simp
next
  case (Cons b rest)
  show ?case
  proof (cases k)
    case 0 then show ?thesis by simp
  next
    case (Suc k')
    then show ?thesis using Cons.prems Cons.IH[of k' b] by simp
  qed
qed


lemma append_range_raw:
  fixes v :: "'a::len dynamic_bitset"
  assumes "blocks \<noteq> []"
  shows "append_range v blocks =
     assert_check_consistency
       (v\<lparr>m_blocks :=
            (if extra_bits_number v = 0 then m_blocks v @ blocks
             else (m_blocks v)[length (m_blocks v) - 1 :=
                      last_block v OR push_bit (extra_bits_number v) (hd blocks)] @
                  carried_blocks (extra_bits_number v) (unused_bits_number v)
                    (drop_bit (unused_bits_number v) (hd blocks)) (tl blocks)),
          m_bits_number := m_bits_number v + length blocks * LENGTH('a)\<rparr>)"
proof (cases "extra_bits_number v = 0")
  case True
  then show ?thesis using assms by (simp add: append_range_def Let_def)
next
  case False
  let ?e = "extra_bits_number v" and ?u = "unused_bits_number v"
  let ?bsz = "(m_blocks v)[length (m_blocks v) - 1 := last_block v OR push_bit ?e (hd blocks)]"
  note l = append_loop[of ?e ?u "tl blocks" ?bsz "m_bits_number v" "drop_bit ?u (hd blocks)"]
  have n: "length (tl blocks) + 1 = length blocks" using assms by (cases blocks) simp_all
  show ?thesis
    using assms False l unfolding n
    by (simp add: append_range_def Let_def split: prod.splits)
qed

lemma append_range_bits:
  fixes v :: "'a::len dynamic_bitset"
  assumes cc: "check_consistency v" and ne: "blocks \<noteq> []"
  shows "\<exists>R. append_range v blocks = Some R \<and>
           m_bits_number R = m_bits_number v + length blocks * LENGTH('a) \<and>
           check_consistency R \<and>
           (\<forall>p. p < m_bits_number v \<longrightarrow> bit_of R p = bit_of v p) \<and>
           (\<forall>k j. k < length blocks \<and> j < LENGTH('a) \<longrightarrow>
               bit_of R (m_bits_number v + k * LENGTH('a) + j) = bit (blocks ! k) j)"
proof -
  let ?W = "LENGTH('a)" and ?s = "m_bits_number v" and ?bs = "m_blocks v"
  let ?n = "length blocks" and ?len = "length ?bs"
  define e where "e = ?s mod ?W"
  define q where "q = ?s div ?W"
  define u where "u = ?W - e"
  have s: "?s = q * ?W + e" and eW: "e < ?W" by (simp_all add: e_def q_def)
  have ex: "extra_bits_number v = e" "unused_bits_number v = u"
    by (simp_all add: extra_bits_number_def unused_bits_number_def bit_index_def e_def u_def)
  have len: "?len = (if e = 0 then q else Suc q)"
    using check_consistency_length[OF cc] by (simp add: blocks_required_alt e_def q_def)
  have n1: "0 < ?n" using ne by simp
  define cat where "cat p = (if p < ?s then bit_of v p
       else p < ?s + ?n * ?W \<and> bit (blocks ! ((p - ?s) div ?W)) ((p - ?s) mod ?W))" for p
  define R where "R = v\<lparr>m_blocks :=
            (if e = 0 then ?bs @ blocks
             else ?bs[?len - 1 := last_block v OR push_bit e (hd blocks)] @
                  carried_blocks e u (drop_bit u (hd blocks)) (tl blocks)),
          m_bits_number := ?s + ?n * ?W\<rparr>"
  have raw: "append_range v blocks = assert_check_consistency R"
    using append_range_raw[OF ne, of v] by (simp add: ex R_def)
  have Rn: "m_bits_number R = ?s + ?n * ?W" by (simp add: R_def)
  have Rlen: "length (m_blocks R) = ?len + ?n"
    using ne by (cases blocks) (simp_all add: R_def)
  have brR: "blocks_required ?W (?s + ?n * ?W) = ?len + ?n"
    using len by (simp add: blocks_required_alt e_def[symmetric] q_def[symmetric])
  have old: "bit (?bs ! i) j = (j < ?W \<and> i * ?W + j < ?s \<and> bit_of v (i * ?W + j))"
    if "i < ?len" for i j
    using check_consistency_bound[OF cc that, of j] bit_imp_le_length[of "?bs ! i" j]
    by (auto simp: bit_of_def)
  have bits: "bit (m_blocks R ! i) j = (j < ?W \<and> cat (i * ?W + j))" if i: "i < ?len + ?n" for i j
  proof (cases "j < ?W")
    case False
    then show ?thesis using bit_imp_le_length[of "m_blocks R ! i" j] by auto
  next
    case jW: True
    show ?thesis
    proof (cases "e = 0")
      case True
      then have lq: "?len = q" and sq: "?s = q * ?W" using len s by simp_all
      have Rb: "m_blocks R = ?bs @ blocks" using True by (simp add: R_def)
      show ?thesis
      proof (cases "i < ?len")
        case True
        then have "Suc i * ?W \<le> q * ?W" unfolding lq by (intro mult_le_mono1) simp
        then have "i * ?W + j < ?s" using jW sq by simp
        then show ?thesis using True jW old[OF True, of j] by (simp add: Rb nth_append cat_def)
      next
        case False
        define k where "k = i - q"
        have ik: "i = q + k" and k: "k < ?n" using False i lq by (simp_all add: k_def)
        have p: "i * ?W + j = ?s + (k * ?W + j)" by (simp add: ik sq algebra_simps)
        have "k * ?W + j < ?n * ?W"
        proof -
          have "Suc k * ?W \<le> ?n * ?W" using k by (intro mult_le_mono1) simp
          then show ?thesis using jW by simp
        qed
        then show ?thesis using jW k False
          by (simp add: Rb nth_append lq p cat_def k_def[symmetric])
      qed
    next
      case False
      then have lq: "?len = Suc q" using len by simp
      have e0: "0 < e" using False by simp
      have ue: "u + e = ?W" "u < ?W" "0 < u" using eW e0 by (simp_all add: u_def)
      let ?bsz = "?bs[q := ?bs ! q OR push_bit e (hd blocks)]"
      let ?cb = "carried_blocks e u (drop_bit u (hd blocks)) (tl blocks)"
      have Rb: "m_blocks R = ?bsz @ ?cb" using False lq by (simp add: R_def last_block_def)
      have hd: "hd blocks = blocks ! 0" using ne by (simp add: hd_conv_nth)
      have lastz: "\<not> bit (?bs ! q) j'" if "e \<le> j'" for j'
      proof
        assume "bit (?bs ! q) j'"
        then have "q * ?W + j' < ?s" using check_consistency_bound[OF cc, of q j'] lq by simp
        then show False using that s by simp
      qed
      consider "i < q" | "i = q" | "q < i" by linarith
      then show ?thesis
      proof cases
        case 1
        then have il: "i < ?len" using lq by simp
        have "Suc i * ?W \<le> q * ?W" using 1 by (intro mult_le_mono1) simp
        then have "i * ?W + j < ?s" using jW s by simp
        then show ?thesis using 1 il jW old[OF il, of j] by (simp add: Rb nth_append lq cat_def)
      next
        case 2
        have b: "bit (m_blocks R ! i) j = (bit (?bs ! q) j \<or> (e \<le> j \<and> bit (blocks ! 0) (j - e)))"
          using 2 lq jW by (simp add: Rb nth_append bit_simps hd)
        show ?thesis
        proof (cases "j < e")
          case True
          then have "i * ?W + j < ?s" using 2 s by simp
          then show ?thesis using True jW 2 b old[of q j] lq by (auto simp: cat_def)
        next
          case F: False
          then have ej: "e \<le> j" by simp
          have p: "i * ?W + j - ?s = j - e" "\<not> i * ?W + j < ?s" using 2 s ej by simp_all
          have "j - e < ?W" using jW by simp
          moreover have "j - e < ?n * ?W"
          proof -
            have "1 \<le> ?n" using ne by (cases blocks) simp_all
            then have "?W \<le> ?n * ?W" by simp
            then show ?thesis using jW by linarith
          qed
          then have "i * ?W + j < ?s + ?n * ?W" using 2 s ej by simp
          ultimately show ?thesis using jW b lastz[OF ej] ej p by (simp add: cat_def)
        qed
      next
        case 3
        define k where "k = i - Suc q"
        have ik: "i = Suc q + k" and k: "k < ?n" using 3 i lq by (simp_all add: k_def)
        have kt: "k \<le> length (tl blocks)" using k by simp
        have nthb: "(hd blocks # tl blocks) ! k = blocks ! k" using ne by simp
        have tl: "k < length (tl blocks) \<Longrightarrow> tl blocks ! k = blocks ! Suc k"
          using ne by (simp add: nth_tl)
        have "m_blocks R ! i = ?cb ! k" using ik lq by (simp add: Rb nth_append)
        also have "\<dots> = drop_bit u (blocks ! k) OR
            (if Suc k < ?n then push_bit e (blocks ! Suc k) else 0)"
          using nth_carried_blocks[OF kt, of e u "hd blocks"] nthb tl by auto
        finally have b: "bit (m_blocks R ! i) j =
            (bit (blocks ! k) (u + j) \<or> (Suc k < ?n \<and> e \<le> j \<and> bit (blocks ! Suc k) (j - e)))"
          using jW by (auto simp: bit_simps)
        have ps: "i * ?W + j = ?s + (k * ?W + (u + j))" "\<not> i * ?W + j < ?s"
          using ue(1) by (simp_all add: ik s algebra_simps)
        show ?thesis
        proof (cases "j < e")
          case True
          then have uj: "u + j < ?W" using ue by simp
          have "Suc k * ?W \<le> ?n * ?W" using k by (intro mult_le_mono1) simp
          then have "k * ?W + (u + j) < ?n * ?W" using uj by simp
          then show ?thesis using True jW b uj unfolding cat_def ps by simp
        next
          case F: False
          then have ej: "e \<le> j" by simp
          have uj: "u + j = ?W + (j - e)" using ue ej by simp
          have je: "j - e < ?W" using jW by simp
          have re: "k * ?W + (u + j) = Suc k * ?W + (j - e)" by (simp add: uj)
          have dm: "(k * ?W + (u + j)) div ?W = Suc k" "(k * ?W + (u + j)) mod ?W = j - e"
            unfolding re using block_position[OF je, of "Suc k"] by blast+
          have dm2: "(u + j) div ?W = 1" "(u + j) mod ?W = j - e"
            using block_position[OF je, of 1] by (simp_all add: uj)
          have nb: "\<not> bit (blocks ! k) (u + j)"
            using bit_imp_le_length[of "blocks ! k" "u + j"] uj by auto
          have lt: "(k * ?W + (u + j) < ?n * ?W) = (Suc k < ?n)"
          proof
            assume "k * ?W + (u + j) < ?n * ?W"
            then have "Suc k * ?W < ?n * ?W" using uj by simp
            then have "0 < ?W \<and> Suc k < ?n" by (simp only: mult_less_cancel2)
            then show "Suc k < ?n" by blast
          next
            assume "Suc k < ?n"
            then have "Suc (Suc k) * ?W \<le> ?n * ?W" by (intro mult_le_mono1) simp
            then show "k * ?W + (u + j) < ?n * ?W" using uj je by simp
          qed
          show ?thesis using jW b nb ej unfolding cat_def ps by (simp add: dm dm2 lt)
        qed
      qed
    qed
  qed
  have ccR: "check_consistency R"
    unfolding check_consistency_iff Rn Rlen brR
    using bits by (auto simp: cat_def split: if_splits)
  have bo: "bit_of R p = cat p" if "p < ?s + ?n * ?W" for p
  proof -
    have "p div ?W < ?len + ?n"
      using div_less_blocks_required[of ?W p "?s + ?n * ?W"] that brR by simp
    then show ?thesis using bits[of "p div ?W" "p mod ?W"] by (simp add: bit_of_def Rlen)
  qed
  have 1: "bit_of R p = bit_of v p" if "p < ?s" for p
    using bo[of p] that by (simp add: cat_def)
  have 2: "bit_of R (?s + k * ?W + j) = bit (blocks ! k) j" if "k < ?n" "j < ?W" for k j
  proof -
    have "Suc k * ?W \<le> ?n * ?W" using that(1) by (intro mult_le_mono1) simp
    then have "k * ?W + j < ?n * ?W" using that(2) by simp
    then show ?thesis using bo[of "?s + k * ?W + j"] that by (simp add: cat_def add.assoc)
  qed
  show ?thesis using raw ccR Rn 1 2 by (auto simp: assert_check_consistency_def)
qed
lemma fold_update_desc:
  assumes "b \<le> length xs"
    and dep: "\<And>i ys. a \<le> i \<Longrightarrow> i < b \<Longrightarrow> length ys = length xs \<Longrightarrow>
               (\<forall>k. k \<le> i \<longrightarrow> ys ! k = xs ! k) \<Longrightarrow> g i ys = g i xs"
  shows "length (fold (\<lambda>i ys. ys[i := g i ys]) (rev [a..<b]) xs) = length xs \<and>
         (\<forall>k < length xs. fold (\<lambda>i ys. ys[i := g i ys]) (rev [a..<b]) xs ! k =
            (if a \<le> k \<and> k < b then g k xs else xs ! k))"
  using assms
proof (induction b arbitrary: xs)
  case 0
  show ?case by simp
next
  case (Suc b)
  define F where "F = (\<lambda>i ys. ys[i := g i ys])"
  show ?case unfolding F_def[symmetric]
  proof (cases "a \<le> b")
    case False
    then have e: "[a..<Suc b] = []" by simp
    have "\<not> (a \<le> k \<and> k < Suc b)" for k using False by linarith
    then have nk: "(a \<le> k \<and> k < Suc b) = False" for k by blast
    show "length (fold F (rev [a..<Suc b]) xs) = length xs \<and>
         (\<forall>k < length xs. fold F (rev [a..<Suc b]) xs ! k =
            (if a \<le> k \<and> k < Suc b then g k xs else xs ! k))" unfolding e nk by simp
  next
    case True
    define zs where "zs = xs[b := g b xs]"
    have zl: "length zs = length xs" by (simp add: zs_def)
    have zn: "zs ! k = xs ! k" if "k \<noteq> b" for k using that by (simp add: zs_def)
    have zb: "zs ! b = g b xs" using Suc.prems(1) by (simp add: zs_def)
    have "[a..<Suc b] = [a..<b] @ [b]" using True by simp
    then have f: "fold F (rev [a..<Suc b]) xs = fold F (rev [a..<b]) zs"
      by (simp add: F_def zs_def)
    have gz: "g i zs = g i xs" if "a \<le> i" "i < b" for i
    proof (rule Suc.prems(2))
      show "a \<le> i" by fact
      show "i < Suc b" using that by simp
      show "length zs = length xs" by fact
      show "\<forall>k. k \<le> i \<longrightarrow> zs ! k = xs ! k" using that zn by auto
    qed
    have g': "g i ys = g i zs"
      if "a \<le> i" "i < b" "length ys = length zs" "\<forall>k. k \<le> i \<longrightarrow> ys ! k = zs ! k" for i ys
    proof -
      have "g i ys = g i xs"
      proof (rule Suc.prems(2))
        show "a \<le> i" by fact
        show "i < Suc b" using that by simp
        show "length ys = length xs" using that(3) zl by simp
        show "\<forall>k. k \<le> i \<longrightarrow> ys ! k = xs ! k"
        proof (intro allI impI)
          fix k assume k: "k \<le> i"
          then have "k \<noteq> b" using that(2) by simp
          then have "zs ! k = xs ! k" by (rule zn)
          moreover have "ys ! k = zs ! k" using that(4) k by blast
          ultimately show "ys ! k = xs ! k" by simp
        qed
      qed
      then show ?thesis using gz[OF that(1,2)] by simp
    qed
    have b: "b \<le> length zs" using Suc.prems(1) zl by simp
    define R where "R = fold F (rev [a..<b]) zs"
    have IH: "length R = length zs \<and>
         (\<forall>k < length zs. R ! k = (if a \<le> k \<and> k < b then g k zs else zs ! k))"
      unfolding R_def F_def
    proof (rule Suc.IH[OF b])
      fix i ys
      assume "a \<le> i" "i < b" "length ys = length zs" "\<forall>k. k \<le> i \<longrightarrow> ys ! k = zs ! k"
      then show "g i ys = g i zs" by (rule g')
    qed
    have len: "length R = length xs" using IH[THEN conjunct1] zl by simp
    have nth: "R ! k = (if a \<le> k \<and> k < Suc b then g k xs else xs ! k)"
      if k: "k < length xs" for k
    proof -
      have "k < length zs" using k zl by simp
      then have e: "R ! k = (if a \<le> k \<and> k < b then g k zs else zs ! k)"
        by (rule IH[THEN conjunct2, rule_format])
      consider "a \<le> k" "k < b" | "k = b" | "\<not> a \<le> k" "k \<noteq> b" | "b < k" by linarith
      then show ?thesis
      proof cases
        case 1 then show ?thesis using e gz[of k] by simp
      next
        case 2 then show ?thesis using e True zb by simp
      next
        case 3 then show ?thesis using e zn[of k] by simp
      next
        case 4 then show ?thesis using e zn[of k] by simp
      qed
    qed
    show "length (fold F (rev [a..<Suc b]) xs) = length xs \<and>
         (\<forall>k < length xs. fold F (rev [a..<Suc b]) xs ! k =
            (if a \<le> k \<and> k < Suc b then g k xs else xs ! k))"
      unfolding f R_def[symmetric] using len nth by blast
  qed
qed

lemma fold_update_asc:
  assumes "b \<le> length xs"
    and dep: "\<And>i ys. a \<le> i \<Longrightarrow> i < b \<Longrightarrow> length ys = length xs \<Longrightarrow>
               (\<forall>k. i \<le> k \<and> k < length xs \<longrightarrow> ys ! k = xs ! k) \<Longrightarrow> g i ys = g i xs"
  shows "length (fold (\<lambda>i ys. ys[i := g i ys]) [a..<b] xs) = length xs \<and>
         (\<forall>k < length xs. fold (\<lambda>i ys. ys[i := g i ys]) [a..<b] xs ! k =
            (if a \<le> k \<and> k < b then g k xs else xs ! k))"
  using assms
proof (induction b)
  case 0
  show ?case by simp
next
  case (Suc b)
  define F where "F = (\<lambda>i ys. ys[i := g i ys])"
  show ?case unfolding F_def[symmetric]
  proof (cases "a \<le> b")
    case False
    then have e: "[a..<Suc b] = []" by simp
    have "\<not> (a \<le> k \<and> k < Suc b)" for k using False by linarith
    then have nk: "(a \<le> k \<and> k < Suc b) = False" for k by blast
    show "length (fold F [a..<Suc b] xs) = length xs \<and>
         (\<forall>k < length xs. fold F [a..<Suc b] xs ! k =
            (if a \<le> k \<and> k < Suc b then g k xs else xs ! k))" unfolding e nk by simp
  next
    case True
    define R where "R = fold F [a..<b] xs"
    have b: "b \<le> length xs" using Suc.prems(1) by simp
    have IH: "length R = length xs \<and>
         (\<forall>k < length xs. R ! k = (if a \<le> k \<and> k < b then g k xs else xs ! k))"
      unfolding R_def F_def
    proof (rule Suc.IH[OF b])
      fix i ys
      assume "a \<le> i" "i < b" "length ys = length xs"
        "\<forall>k. i \<le> k \<and> k < length xs \<longrightarrow> ys ! k = xs ! k"
      then show "g i ys = g i xs" using Suc.prems(2)[of i ys] by simp
    qed
    note len = IH[THEN conjunct1]
    note nthR = IH[THEN conjunct2, rule_format]
    have "[a..<Suc b] = [a..<b] @ [b]" using True by simp
    then have f: "fold F [a..<Suc b] xs = R[b := g b R]"
      by (simp add: F_def R_def)
    have gb: "g b R = g b xs"
    proof (rule Suc.prems(2))
      show "a \<le> b" by fact
      show "b < Suc b" by simp
      show "length R = length xs" by fact
      show "\<forall>k. b \<le> k \<and> k < length xs \<longrightarrow> R ! k = xs ! k"
      proof (intro allI impI)
        fix k assume k: "b \<le> k \<and> k < length xs"
        then have "R ! k = (if a \<le> k \<and> k < b then g k xs else xs ! k)" by (intro nthR) simp
        then show "R ! k = xs ! k" using k by simp
      qed
    qed
    have l2: "length (R[b := g b R]) = length xs" using len by simp
    have nth: "R[b := g b R] ! k = (if a \<le> k \<and> k < Suc b then g k xs else xs ! k)"
      if k: "k < length xs" for k
    proof (cases "k = b")
      case T: True
      have "R[b := g b R] ! b = g b R" using k T len by simp
      then show ?thesis using T True gb by simp
    next
      case F: False
      have "R[b := g b R] ! k = R ! k" using F by simp
      also have "\<dots> = (if a \<le> k \<and> k < b then g k xs else xs ! k)" using k by (rule nthR)
      also have "(a \<le> k \<and> k < b) = (a \<le> k \<and> k < Suc b)" using F by linarith
      finally show ?thesis .
    qed
    show "length (fold F [a..<Suc b] xs) = length xs \<and>
         (\<forall>k < length xs. fold F [a..<Suc b] xs ! k =
            (if a \<le> k \<and> k < Suc b then g k xs else xs ! k))"
      unfolding f using l2 nth by blast
  qed
qed

lemma vector_fill_nth:
  assumes "j \<le> length xs"
  shows "length (vector_fill xs i j x) = length xs"
    and "k < length xs \<Longrightarrow> vector_fill xs i j x ! k = (if i \<le> k \<and> k < j then x else xs ! k)"
  using fold_update_upt[OF assms, where f = "\<lambda>_ _. x" and a = i]
  by (simp_all add: vector_fill_def)

lemma apply_left_shift_blocks:
  fixes v :: "'a::len dynamic_bitset"
  assumes s: "0 < shift" "shift < length (m_blocks v) * LENGTH('a)"
  shows "\<exists>r. apply_left_shift v shift = Some r \<and> m_bits_number r = m_bits_number v \<and>
           length (m_blocks r) = length (m_blocks v) \<and>
           (\<forall>i. i < length (m_blocks v) \<longrightarrow> m_blocks r ! i =
              (if i < shift div LENGTH('a) then 0
               else if shift mod LENGTH('a) = 0 then m_blocks v ! (i - shift div LENGTH('a))
               else if i = shift div LENGTH('a) then push_bit (shift mod LENGTH('a)) (m_blocks v ! 0)
               else push_bit (shift mod LENGTH('a)) (m_blocks v ! (i - shift div LENGTH('a))) OR
                    drop_bit (LENGTH('a) - shift mod LENGTH('a))
                      (m_blocks v ! (i - shift div LENGTH('a) - 1))))"
proof -
  define n where "n = length (m_blocks v)"
  define bsh where "bsh = shift div LENGTH('a)"
  define off where "off = shift mod LENGTH('a)"
  define bs where "bs = m_blocks v"
  define g0 :: "nat \<Rightarrow> 'a word list \<Rightarrow> 'a word" where "g0 = (\<lambda>i ys. ys ! (i - bsh))"
  define g1 :: "nat \<Rightarrow> 'a word list \<Rightarrow> 'a word" where
    "g1 = (\<lambda>i ys. push_bit off (ys ! (i - bsh)) OR drop_bit (LENGTH('a) - off) (ys ! (i - bsh - 1)))"
  define l0 where "l0 = fold (\<lambda>i ys. ys[i := g0 i ys]) (rev [bsh..<n]) bs"
  define l1 where "l1 = fold (\<lambda>i ys. ys[i := g1 i ys]) (rev [bsh + 1..<n]) bs"
  define bs1 where "bs1 = (if off = 0 then l0 else l1[bsh := push_bit off (l1 ! 0)])"
  have bn: "bsh < n" using s(2) unfolding bsh_def n_def by (rule less_mult_imp_div_less)
  have nl: "n \<le> length bs" by (simp add: n_def bs_def)
  have e: "apply_left_shift v shift = Some (v\<lparr>m_blocks := vector_fill bs1 0 bsh zero_block\<rparr>)"
    using s unfolding bs1_def l0_def l1_def g0_def g1_def bsh_def off_def n_def bs_def
    by (simp add: apply_left_shift_def Let_def capacity_def)
  have d0: "g0 i ys = g0 i bs" if "\<forall>k. k \<le> i \<longrightarrow> ys ! k = bs ! k" for i ys
    using that by (simp add: g0_def)
  have d1: "g1 i ys = g1 i bs" if "\<forall>k. k \<le> i \<longrightarrow> ys ! k = bs ! k" for i ys
    using that by (simp add: g1_def)
  have L0: "length l0 = length bs \<and>
         (\<forall>k < length bs. l0 ! k = (if bsh \<le> k \<and> k < n then g0 k bs else bs ! k))"
    unfolding l0_def using nl
  proof (rule fold_update_desc)
    fix i ys assume "\<forall>k. k \<le> i \<longrightarrow> ys ! k = bs ! k"
    then show "g0 i ys = g0 i bs" by (rule d0)
  qed
  have L1: "length l1 = length bs \<and>
         (\<forall>k < length bs. l1 ! k = (if bsh + 1 \<le> k \<and> k < n then g1 k bs else bs ! k))"
    unfolding l1_def using nl
  proof (rule fold_update_desc)
    fix i ys assume "\<forall>k. k \<le> i \<longrightarrow> ys ! k = bs ! k"
    then show "g1 i ys = g1 i bs" by (rule d1)
  qed
  note L0l = L0[THEN conjunct1] and L0n = L0[THEN conjunct2, rule_format]
  note L1l = L1[THEN conjunct1] and L1n = L1[THEN conjunct2, rule_format]
  have lb: "length bs = n" by (simp add: n_def bs_def)
  have l1z: "l1 ! 0 = bs ! 0" using L1n[of 0] bn lb by simp
  have b1l: "length bs1 = n" using L0l L1l lb by (simp add: bs1_def)
  have b1n: "bs1 ! i = (if off = 0 then (if bsh \<le> i then bs ! (i - bsh) else bs ! i)
               else if i = bsh then push_bit off (bs ! 0)
               else if bsh < i then g1 i bs else bs ! i)" if i: "i < n" for i
  proof (cases "off = 0")
    case True
    then show ?thesis using L0n[of i] i lb by (simp add: bs1_def g0_def)
  next
    case False
    show ?thesis
    proof (cases "i = bsh")
      case T: True
      then show ?thesis using False i L1l lb l1z by (simp add: bs1_def)
    next
      case F: False
      then show ?thesis using False L1n[of i] i lb by (simp add: bs1_def)
    qed
  qed
  have fl: "length (vector_fill bs1 0 bsh zero_block) = n"
    using vector_fill_nth(1)[of bsh bs1 0 zero_block] bn b1l by simp
  have fn: "vector_fill bs1 0 bsh zero_block ! i = (if i < bsh then 0 else bs1 ! i)" if "i < n" for i
    using vector_fill_nth(2)[of bsh bs1 i 0 zero_block] bn b1l that by (simp add: zero_block_def)
  have "vector_fill bs1 0 bsh zero_block ! i =
              (if i < bsh then 0
               else if off = 0 then bs ! (i - bsh)
               else if i = bsh then push_bit off (bs ! 0)
               else push_bit off (bs ! (i - bsh)) OR drop_bit (LENGTH('a) - off) (bs ! (i - bsh - 1)))"
    if "i < n" for i
    using fn[OF that] b1n[OF that] by (simp add: g1_def)
  then show ?thesis
    unfolding e using fl by (simp add: n_def bsh_def off_def bs_def)
qed


lemma apply_right_shift_blocks:
  fixes v :: "'a::len dynamic_bitset"
  assumes s: "0 < shift" "shift < length (m_blocks v) * LENGTH('a)"
  shows "\<exists>r. apply_right_shift v shift = Some r \<and> m_bits_number r = m_bits_number v \<and>
           length (m_blocks r) = length (m_blocks v) \<and>
           (\<forall>i. i < length (m_blocks v) \<longrightarrow> m_blocks r ! i =
              (if length (m_blocks v) - shift div LENGTH('a) - 1 < i then 0
               else if shift mod LENGTH('a) = 0 then m_blocks v ! (i + shift div LENGTH('a))
               else if i = length (m_blocks v) - shift div LENGTH('a) - 1
                 then drop_bit (shift mod LENGTH('a)) (m_blocks v ! (length (m_blocks v) - 1))
               else drop_bit (shift mod LENGTH('a)) (m_blocks v ! (i + shift div LENGTH('a))) OR
                    push_bit (LENGTH('a) - shift mod LENGTH('a))
                      (m_blocks v ! (i + shift div LENGTH('a) + 1))))"
proof -
  define n where "n = length (m_blocks v)"
  define bsh where "bsh = shift div LENGTH('a)"
  define off where "off = shift mod LENGTH('a)"
  define bs where "bs = m_blocks v"
  define lbs where "lbs = n - bsh - 1"
  define g0 :: "nat \<Rightarrow> 'a word list \<Rightarrow> 'a word" where "g0 = (\<lambda>i ys. ys ! (i + bsh))"
  define g1 :: "nat \<Rightarrow> 'a word list \<Rightarrow> 'a word" where
    "g1 = (\<lambda>i ys. drop_bit off (ys ! (i + bsh)) OR push_bit (LENGTH('a) - off) (ys ! (i + bsh + 1)))"
  define l0 where "l0 = fold (\<lambda>i ys. ys[i := g0 i ys]) [0..<lbs + 1] bs"
  define l1 where "l1 = fold (\<lambda>i ys. ys[i := g1 i ys]) [0..<lbs] bs"
  define bs1 where "bs1 = (if off = 0 then l0 else l1[lbs := drop_bit off (l1 ! (n - 1))])"
  have bn: "bsh < n" using s(2) unfolding bsh_def n_def by (rule less_mult_imp_div_less)
  have lb: "length bs = n" by (simp add: n_def bs_def)
  have ln: "lbs < n" "lbs + bsh + 1 = n" using bn by (simp_all add: lbs_def)
  have e: "apply_right_shift v shift = Some (v\<lparr>m_blocks := vector_fill bs1 (lbs + 1) n zero_block\<rparr>)"
    using s unfolding bs1_def l0_def l1_def g0_def g1_def lbs_def bsh_def off_def n_def bs_def
    by (simp add: apply_right_shift_def Let_def capacity_def)
  have d0: "g0 i ys = g0 i bs"
    if "i < lbs + 1" "\<forall>k. i \<le> k \<and> k < length bs \<longrightarrow> ys ! k = bs ! k" for i ys
  proof -
    have "i + bsh < length bs" using that(1) ln lb by simp
    then show ?thesis using that(2) by (simp add: g0_def)
  qed
  have d1: "g1 i ys = g1 i bs"
    if "i < lbs" "\<forall>k. i \<le> k \<and> k < length bs \<longrightarrow> ys ! k = bs ! k" for i ys
  proof -
    have "i + bsh < length bs" "i + bsh + 1 < length bs" using that(1) ln lb by simp_all
    then have "ys ! (i + bsh) = bs ! (i + bsh)" "ys ! (i + bsh + 1) = bs ! (i + bsh + 1)"
      using that(2) by simp_all
    then show ?thesis by (simp add: g1_def)
  qed
  have n0: "lbs + 1 \<le> length bs" using ln lb by simp
  have n1: "lbs \<le> length bs" using ln lb by simp
  have L0: "length l0 = length bs \<and>
         (\<forall>k < length bs. l0 ! k = (if 0 \<le> k \<and> k < lbs + 1 then g0 k bs else bs ! k))"
    unfolding l0_def using n0
  proof (rule fold_update_asc)
    fix i ys assume "i < lbs + 1" "\<forall>k. i \<le> k \<and> k < length bs \<longrightarrow> ys ! k = bs ! k"
    then show "g0 i ys = g0 i bs" by (rule d0)
  qed
  have L1: "length l1 = length bs \<and>
         (\<forall>k < length bs. l1 ! k = (if 0 \<le> k \<and> k < lbs then g1 k bs else bs ! k))"
    unfolding l1_def using n1
  proof (rule fold_update_asc)
    fix i ys assume "i < lbs" "\<forall>k. i \<le> k \<and> k < length bs \<longrightarrow> ys ! k = bs ! k"
    then show "g1 i ys = g1 i bs" by (rule d1)
  qed
  note L0l = L0[THEN conjunct1] and L0n = L0[THEN conjunct2, rule_format]
  note L1l = L1[THEN conjunct1] and L1n = L1[THEN conjunct2, rule_format]
  have l1z: "l1 ! (n - 1) = bs ! (n - 1)"
  proof -
    have "n - 1 < length bs" "\<not> n - 1 < lbs" using ln lb by linarith+
    then show ?thesis using L1n[of "n - 1"] by simp
  qed
  have b1l: "length bs1 = n" using L0l L1l lb by (simp add: bs1_def)
  have b1n: "bs1 ! i = (if off = 0 then (if i \<le> lbs then bs ! (i + bsh) else bs ! i)
               else if i = lbs then drop_bit off (bs ! (n - 1))
               else if i < lbs then g1 i bs else bs ! i)" if i: "i < n" for i
  proof (cases "off = 0")
    case True
    then show ?thesis using L0n[of i] i lb by (simp add: bs1_def g0_def less_Suc_eq_le)
  next
    case False
    show ?thesis
    proof (cases "i = lbs")
      case T: True
      then show ?thesis using False i L1l lb l1z by (simp add: bs1_def)
    next
      case F: False
      then show ?thesis using False L1n[of i] i lb by (simp add: bs1_def)
    qed
  qed
  have fl: "length (vector_fill bs1 (lbs + 1) n zero_block) = n"
    using vector_fill_nth(1)[of n bs1 "lbs + 1" zero_block] b1l by simp
  have fn: "vector_fill bs1 (lbs + 1) n zero_block ! i = (if lbs < i then 0 else bs1 ! i)"
    if "i < n" for i
    using vector_fill_nth(2)[of n bs1 i "lbs + 1" zero_block] b1l that
    by (simp add: zero_block_def Suc_le_eq)
  have "vector_fill bs1 (lbs + 1) n zero_block ! i =
              (if lbs < i then 0
               else if off = 0 then bs ! (i + bsh)
               else if i = lbs then drop_bit off (bs ! (n - 1))
               else drop_bit off (bs ! (i + bsh)) OR push_bit (LENGTH('a) - off) (bs ! (i + bsh + 1)))"
    if "i < n" for i
    using fn[OF that] b1n[OF that] by (simp add: g1_def)
  then show ?thesis
    unfolding e using fl by (simp add: n_def bsh_def off_def bs_def lbs_def)
qed


section \<open>Subset and proper subset\<close>

text \<open>
  Claim C7.  For bitsets \<open>A\<close> and \<open>B\<close> of equal size, \<open>A.is_subset_of(B)\<close> is
  \<open>(A & ~B).none()\<close>, and \<open>A.is_proper_subset_of(B)\<close> is \<open>A != B && A.is_subset_of(B)\<close>.
  Both bitsets satisfy \<open>check_consistency\<close>, as every bitset the class builds does; no
  assertion fails.
\<close>

theorem subset_laws:
  fixes A B :: "'a::len dynamic_bitset"
  assumes A: "check_consistency A" and B: "check_consistency B"
    and sz: "bitset_size A = bitset_size B"
  shows "(\<exists>D. operator_and A (operator_not B) = Some D \<and> is_subset_of A B = Some (none D)) \<and>
         (\<exists>s. is_subset_of A B = Some s \<and>
              is_proper_subset_of A B = Some (operator_neq A B \<and> s))"
proof -
  let ?W = "LENGTH('a)" and ?n = "m_bits_number A"
  let ?xs = "m_blocks A" and ?ys = "m_blocks B"
  have n: "m_bits_number B = ?n" using sz by (simp add: bitset_size_def)
  have lenA: "length ?xs = blocks_required ?W ?n"
    and bndA: "\<And>i j. i < length ?xs \<Longrightarrow> bit (?xs ! i) j \<Longrightarrow> i * ?W + j < ?n"
    using A by (auto simp: check_consistency_iff)
  have lenB: "length ?ys = blocks_required ?W ?n" using B n by (simp add: check_consistency_iff)
  obtain D where D: "operator_and_assign A (flip_all B) = Some D"
    using sz by (auto simp: operator_and_assign_def bitset_size_def flip_all_def)
  have sub: "is_subset_of A B = Some (\<forall>i<length ?xs. ?xs ! i AND NOT (?ys ! i) = 0)"
    using sz by (simp add: is_subset_of_def is_subset_of_loop_iff)
  have blk: "(m_blocks D ! i = 0) = (?xs ! i AND NOT (?ys ! i) = 0)" if i: "i < length ?xs" for i
  proof -
    have "bit (m_blocks D ! i) j = (bit (?xs ! i) j \<and> \<not> bit (?ys ! i) j)" for j
      using m_blocks_and_assign(3)[OF D i] bit_flip_all[of B i j] i lenA lenB n bndA[of i j]
        bit_imp_le_length[of "?xs ! i" j]
      by (auto simp: bit_simps)
    then show ?thesis by (auto simp: bit_eq_iff bit_simps)
  qed
  have noneD: "none D = (\<forall>i<length ?xs. ?xs ! i AND NOT (?ys ! i) = 0)"
    using blk m_blocks_and_assign(2)[OF D] by (auto simp: none_def any_bit_def any_loop_nth)
  have 1: "\<exists>D. operator_and A (operator_not B) = Some D \<and> is_subset_of A B = Some (none D)"
    using D sub noneD by (simp add: operator_and_def operator_not_def)
  have psub: "is_proper_subset_of A B =
      Some ((\<forall>i<length ?xs. ?xs ! i AND NOT (?ys ! i) = 0) \<and>
            (\<exists>i<length ?xs. NOT (?xs ! i) AND ?ys ! i \<noteq> 0))"
    using sz by (simp add: is_proper_subset_of_def is_proper_subset_of_loop_iff)
  have neq: "operator_neq A B = (?xs \<noteq> ?ys)"
    using n by (simp add: operator_neq_def operator_eq_def)
  have "(\<exists>i<length ?xs. NOT (?xs ! i) AND ?ys ! i \<noteq> 0) = (?xs \<noteq> ?ys)"
    if s: "\<forall>i<length ?xs. ?xs ! i AND NOT (?ys ! i) = 0"
  proof
    assume "\<exists>i<length ?xs. NOT (?xs ! i) AND ?ys ! i \<noteq> 0"
    then obtain i where "i < length ?xs" "NOT (?xs ! i) AND ?ys ! i \<noteq> 0" by blast
    then have "?xs ! i \<noteq> ?ys ! i" by auto
    then show "?xs \<noteq> ?ys" by auto
  next
    assume "?xs \<noteq> ?ys"
    then obtain i where i: "i < length ?xs" "?xs ! i \<noteq> ?ys ! i"
      using lenA lenB by (metis nth_equalityI)
    have "\<forall>j. bit (?xs ! i) j \<longrightarrow> bit (?ys ! i) j" using s i(1) by (simp add: and_not_eq_0_iff)
    moreover obtain j where "bit (?xs ! i) j \<noteq> bit (?ys ! i) j" using i(2) by (auto simp: bit_eq_iff)
    ultimately have "bit (NOT (?xs ! i) AND ?ys ! i) j"
      using bit_imp_le_length[of "?ys ! i" j] by (auto simp: bit_simps)
    then have "NOT (?xs ! i) AND ?ys ! i \<noteq> 0" by auto
    then show "\<exists>i<length ?xs. NOT (?xs ! i) AND ?ys ! i \<noteq> 0" using i(1) by blast
  qed
  then have 2: "\<exists>s. is_subset_of A B = Some s \<and>
              is_proper_subset_of A B = Some (operator_neq A B \<and> s)"
    unfolding sub psub neq by auto
  show ?thesis using 1 2 by (rule conjI)
qed

theorem subset_laws_witness:
  "check_consistency \<lparr>m_blocks = [5 :: 8 word], m_bits_number = 3\<rparr> \<and>
   check_consistency \<lparr>m_blocks = [7 :: 8 word], m_bits_number = 3\<rparr> \<and>
   is_subset_of \<lparr>m_blocks = [5 :: 8 word], m_bits_number = 3\<rparr> \<lparr>m_blocks = [7], m_bits_number = 3\<rparr> = Some True \<and>
   is_proper_subset_of \<lparr>m_blocks = [5 :: 8 word], m_bits_number = 3\<rparr> \<lparr>m_blocks = [7], m_bits_number = 3\<rparr> = Some True \<and>
   operator_neq \<lparr>m_blocks = [5 :: 8 word], m_bits_number = 3\<rparr> \<lparr>m_blocks = [7], m_bits_number = 3\<rparr> \<and>
   (\<exists>D. operator_and \<lparr>m_blocks = [5 :: 8 word], m_bits_number = 3\<rparr>
           (operator_not \<lparr>m_blocks = [7], m_bits_number = 3\<rparr>) = Some D \<and> none D)"
proof -
  let ?A = "\<lparr>m_blocks = [5 :: 8 word], m_bits_number = 3\<rparr>"
  let ?B = "\<lparr>m_blocks = [7 :: 8 word], m_bits_number = 3\<rparr>"
  have h: "check_consistency ?A" "check_consistency ?B" "bitset_size ?A = bitset_size ?B"
    by code_simp+
  have s: "is_subset_of ?A ?B = Some True" by code_simp
  have n: "operator_neq ?A ?B" by code_simp
  from subset_laws[OF h] s n h show ?thesis by auto
qed

section \<open>Intersection\<close>

text \<open>
  Claim C8.  For bitsets \<open>A\<close> and \<open>B\<close> of any sizes, \<open>A.intersects(B)\<close> is true iff some pair of
  corresponding blocks, among the blocks both bitsets have, has a non-zero AND; for bitsets
  that satisfy \<open>check_consistency\<close> this is the case iff some position below both sizes has
  its bit set in \<open>A\<close> and in \<open>B\<close>.  \<open>intersects\<close> asserts nothing: it returns a truth value for
  every pair of bitsets.
\<close>

theorem intersects_iff:
  fixes A B :: "'a::len dynamic_bitset"
  assumes A: "check_consistency A" and B: "check_consistency B"
  shows "intersects A B =
           (\<exists>i < min (num_blocks A) (num_blocks B). m_blocks A ! i AND m_blocks B ! i \<noteq> zero_block) \<and>
         intersects A B =
           (\<exists>p < min (bitset_size A) (bitset_size B). test A p = Some True \<and> test B p = Some True)"
proof -
  have 1: "intersects A B =
      (\<exists>i < min (length (m_blocks A)) (length (m_blocks B)). m_blocks A ! i AND m_blocks B ! i \<noteq> 0)"
    by (simp add: intersects_def intersects_loop_iff)
  have 2: "(\<exists>p < min (bitset_size A) (bitset_size B). test A p = Some True \<and> test B p = Some True) =
      (\<exists>p < min (m_bits_number A) (m_bits_number B). bit_of A p \<and> bit_of B p)"
    by (auto simp: test_eq bitset_size_def)
  show ?thesis
    unfolding 2 using 1 common_block_iff_common_bit[OF A B]
    by (simp add: num_blocks_def zero_block_def)
qed

theorem intersects_iff_witness:
  "check_consistency \<lparr>m_blocks = [0x10 :: 8 word, 1], m_bits_number = 9\<rparr> \<and>
   check_consistency \<lparr>m_blocks = [0x30 :: 8 word], m_bits_number = 6\<rparr> \<and>
   intersects \<lparr>m_blocks = [0x10 :: 8 word, 1], m_bits_number = 9\<rparr>
     \<lparr>m_blocks = [0x30 :: 8 word], m_bits_number = 6\<rparr> \<and>
   (\<exists>p < min (bitset_size \<lparr>m_blocks = [0x10 :: 8 word, 1], m_bits_number = 9\<rparr>)
              (bitset_size \<lparr>m_blocks = [0x30 :: 8 word], m_bits_number = 6\<rparr>).
      test \<lparr>m_blocks = [0x10 :: 8 word, 1], m_bits_number = 9\<rparr> p = Some True \<and>
      test \<lparr>m_blocks = [0x30 :: 8 word], m_bits_number = 6\<rparr> p = Some True)"
proof -
  let ?A = "\<lparr>m_blocks = [0x10 :: 8 word, 1], m_bits_number = 9\<rparr>"
  let ?B = "\<lparr>m_blocks = [0x30 :: 8 word], m_bits_number = 6\<rparr>"
  have h: "check_consistency ?A" "check_consistency ?B" by code_simp+
  have i: "intersects ?A ?B" by code_simp
  from intersects_iff[OF h] i h show ?thesis by simp
qed

section \<open>The count of a bitset\<close>

text \<open>
  Claim C5.  For every bitset \<open>v\<close> that satisfies \<open>check_consistency\<close>, \<open>v.count()\<close> is the
  number of positions \<open>p < v.size()\<close> with \<open>v.test(p)\<close> true, whether the size is a multiple of
  the block width or not, on each of the three paths: the loop over the bits, the compiler's
  population count, and libpopcnt.  It is 0 for an empty bitset.  No assertion fails.
\<close>

theorem count_correct:
  fixes v :: "'a::len dynamic_bitset"
  assumes "check_consistency v"
  shows "count_bits use_libpopcnt path v = Some (card {p. p < bitset_size v \<and> test v p = Some True}) \<and>
         (bitset_empty v \<longrightarrow> count_bits use_libpopcnt path v = Some 0)"
proof -
  let ?W = "LENGTH('a)" and ?n = "m_bits_number v" and ?bs = "m_blocks v"
  have tgt: "card {p. p < bitset_size v \<and> test v p = Some True} = sum_list (map builtin_popcount ?bs)"
    using set_positions_eq_bits_set[OF assms] by (simp add: card_bits_set)
  have len: "length ?bs = blocks_required ?W ?n" using assms by (rule check_consistency_length)
  have pc: "builtin_popcount = block_count path" for path :: bit_scan
    by (rule ext) (simp add: block_count_card builtin_popcount_card)
  show ?thesis
  proof (cases "?n = 0")
    case True
    then have "?bs = []" using len by (simp add: blocks_required_def)
    then show ?thesis using True tgt by (simp add: count_bits_def bitset_empty_def bitset_size_def)
  next
    case False
    then have ne: "?bs \<noteq> []" using len by (auto simp: blocks_required_def split: if_splits)
    have e: "\<not> bitset_empty v" using False by (simp add: bitset_empty_def bitset_size_def)
    have bl: "?bs = butlast ?bs @ [last_block v]"
      using ne append_butlast_last_id[of ?bs] last_conv_nth[of ?bs] by (simp add: last_block_def)
    have front: "fold (\<lambda>i c. c + block_count path (?bs ! i)) [0..<length ?bs - 1] 0 =
        sum_list (map (block_count path) (butlast ?bs))"
      using fold_sum_blocks[of "length ?bs - 1" ?bs "block_count path" 0]
      by (simp add: butlast_conv_take)
    have lastc: "(if last_block v \<noteq> zero_block
           then (let extra_bits = extra_bits_number v
                 in if extra_bits = 0 then Some (c + block_count path (last_block v))
                    else map_option (\<lambda>x. c + x) (block_count_nbits path (last_block v) extra_bits))
           else Some c) = Some (c + block_count path (last_block v))" for c
    proof (cases "extra_bits_number v = 0")
      case True then show ?thesis by (auto simp: block_count_card zero_block_def)
    next
      case F: False
      have le: "extra_bits_number v \<le> ?W" by (simp add: extra_bits_number_def bit_index_def)
      have "\<not> bit (last_block v) j" if "extra_bits_number v \<le> j" for j
        using assms F that
        by (simp add: check_consistency_def check_unused_bits_iff extra_bits_number_def bit_index_def)
      then have "{j. j < extra_bits_number v \<and> bit (last_block v) j} = {j. bit (last_block v) j}"
        by (auto simp: not_le[symmetric])
      then show ?thesis using F by (auto simp: block_count_nbits_card[OF le] block_count_card zero_block_def)
    qed
    have total: "sum_list (map (block_count path) (butlast ?bs)) + block_count path (last_block v) =
        sum_list (map (block_count path) ?bs)"
      using arg_cong[OF bl, of "\<lambda>xs. sum_list (map (block_count path) xs)"] by simp
    show ?thesis
    proof (cases use_libpopcnt)
      case True
      then show ?thesis using e tgt by (simp add: count_bits_def popcnt_def)
    next
      case F: False
      have "count_bits use_libpopcnt path v = Some (sum_list (map (block_count path) ?bs))"
        using e F by (simp add: count_bits_def Let_def front[unfolded One_nat_def] lastc total)
      then show ?thesis using e tgt by (simp add: pc[of path])
    qed
  qed
qed

theorem count_correct_witness:
  "check_consistency \<lparr>m_blocks = [0xFF :: 8 word, 5], m_bits_number = 11\<rparr> \<and>
   count_bits False Portable_loop \<lparr>m_blocks = [0xFF :: 8 word, 5], m_bits_number = 11\<rparr> = Some 10 \<and>
   count_bits False Compiler_builtin \<lparr>m_blocks = [0xFF :: 8 word, 5], m_bits_number = 11\<rparr> = Some 10 \<and>
   count_bits True Portable_loop \<lparr>m_blocks = [0xFF :: 8 word, 5], m_bits_number = 11\<rparr> = Some 10 \<and>
   card {p. p < bitset_size \<lparr>m_blocks = [0xFF :: 8 word, 5], m_bits_number = 11\<rparr> \<and>
            test \<lparr>m_blocks = [0xFF :: 8 word, 5], m_bits_number = 11\<rparr> p = Some True} = 10 \<and>
   bitset_empty (dynamic_bitset_default :: 8 dynamic_bitset) \<and>
   count_bits False Portable_loop (dynamic_bitset_default :: 8 dynamic_bitset) = Some 0"
proof -
  let ?v = "\<lparr>m_blocks = [0xFF :: 8 word, 5], m_bits_number = 11\<rparr>"
  have h: "check_consistency ?v" by code_simp
  have c: "count_bits False Portable_loop ?v = Some 10"
    "count_bits False Compiler_builtin ?v = Some 10"
    "count_bits True Portable_loop ?v = Some 10"
    by code_simp+
  have d: "check_consistency (dynamic_bitset_default :: 8 dynamic_bitset)"
    "bitset_empty (dynamic_bitset_default :: 8 dynamic_bitset)"
    by code_simp+
  have k: "card {p. p < bitset_size ?v \<and> test ?v p = Some True} = 10"
    using count_correct[OF h, of False Portable_loop] c(1) by simp
  have e: "count_bits False Portable_loop (dynamic_bitset_default :: 8 dynamic_bitset) = Some 0"
    using count_correct[OF d(1), of False Portable_loop] d(2) by blast
  show ?thesis using h c k d(2) e by (intro conjI)
qed

section \<open>The first and the next set bit\<close>

text \<open>
  Claim C6.  For every bitset \<open>v\<close> that satisfies \<open>check_consistency\<close>, \<open>find_first()\<close> returns the
  least position \<open>p\<close> with \<open>test(p)\<close> true, or \<open>npos\<close> if no bit is set; for every \<open>prev\<close>,
  \<open>find_next(prev)\<close> returns the least set position greater than \<open>prev\<close>, or \<open>npos\<close> if there
  is none; and \<open>find_next\<close> returns \<open>npos\<close> whenever the bitset is empty or
  \<open>prev >= size() - 1\<close>.  This holds for the loop of \<open>first_on\<close> and for the compiler's
  trailing-zero count; the assertion of \<open>first_on\<close> never fails.
\<close>

theorem find_first_find_next_correct:
  fixes v :: "'a::len dynamic_bitset"
  assumes "check_consistency v"
  shows "(\<exists>r. find_first path v = Some r \<and>
            (if \<exists>p<bitset_size v. test v p = Some True then first_set_from v 0 r else r = npos)) \<and>
         (\<exists>r. find_next path v prev = Some r \<and>
            (if \<exists>p. prev < p \<and> p < bitset_size v \<and> test v p = Some True
             then first_set_from v (Suc prev) r else r = npos)) \<and>
         (bitset_empty v \<or> prev \<ge> bitset_size v - 1 \<longrightarrow> find_next path v prev = Some npos)"
  using find_first_correct[OF assms] find_next_correct[OF assms]
  by (simp add: find_next_def)

theorem find_first_find_next_correct_witness:
  "check_consistency \<lparr>m_blocks = [0 :: 8 word, 0x14], m_bits_number = 13\<rparr> \<and>
   find_first Portable_loop \<lparr>m_blocks = [0 :: 8 word, 0x14], m_bits_number = 13\<rparr> = Some 10 \<and>
   first_set_from \<lparr>m_blocks = [0 :: 8 word, 0x14], m_bits_number = 13\<rparr> 0 10 \<and>
   find_next Portable_loop \<lparr>m_blocks = [0 :: 8 word, 0x14], m_bits_number = 13\<rparr> 10 = Some 12 \<and>
   first_set_from \<lparr>m_blocks = [0 :: 8 word, 0x14], m_bits_number = 13\<rparr> 11 12 \<and>
   find_next Compiler_builtin \<lparr>m_blocks = [0 :: 8 word, 0x14], m_bits_number = 13\<rparr> 12 = Some npos"
proof -
  let ?v = "\<lparr>m_blocks = [0 :: 8 word, 0x14], m_bits_number = 13\<rparr>"
  have h: "check_consistency ?v" by code_simp
  have f: "find_first Portable_loop ?v = Some 10" "find_next Portable_loop ?v 10 = Some 12"
    by code_simp+
  have t: "12 < bitset_size ?v" "test ?v 12 = Some True" by code_simp+
  have e: "\<exists>p<bitset_size ?v. test ?v p = Some True"
    "\<exists>p. 10 < p \<and> p < bitset_size ?v \<and> test ?v p = Some True"
    using t by (blast, intro exI[of _ 12]) simp
  have l: "bitset_size ?v - 1 \<le> 12" by code_simp
  note c = find_first_find_next_correct[OF h]
  have 1: "first_set_from ?v 0 10" using c[of Portable_loop 10] f(1) e(1) by auto
  have 2: "first_set_from ?v 11 12" using c[of Portable_loop 10] f(2) e(2) by auto
  have 3: "find_next Compiler_builtin ?v 12 = Some npos" using c[of Compiler_builtin 12] l by blast
  show ?thesis using h f 1 2 3 by (intro conjI)
qed

section \<open>Total order\<close>

text \<open>
  Claim C2.  For bitsets \<open>A\<close> and \<open>B\<close> of any sizes that satisfy \<open>check_consistency\<close>, exactly one
  of \<open>A < B\<close>, \<open>B < A\<close>, \<open>A == B\<close> holds; when both represent the same unsigned number, the
  shorter bitset is less than the longer one; and \<open>dynamic_bitset("011") <
  dynamic_bitset("0011")\<close> is true while \<open>dynamic_bitset("011") == dynamic_bitset("0011")\<close> is
  false (stated for blocks of 64 bits, the default \<open>Block\<close>).
\<close>

theorem order_trichotomy:
  fixes A B :: "'a::len dynamic_bitset"
  assumes A: "check_consistency A" and B: "check_consistency B"
  shows "((operator_less A B \<and> \<not> operator_less B A \<and> \<not> operator_eq A B) \<or>
          (\<not> operator_less A B \<and> operator_less B A \<and> \<not> operator_eq A B) \<or>
          (\<not> operator_less A B \<and> \<not> operator_less B A \<and> operator_eq A B)) \<and>
         (magnitude A = magnitude B \<and> bitset_size A < bitset_size B \<longrightarrow> operator_less A B) \<and>
         (\<exists>a b. dynamic_bitset_string ''011'' 0 npos CHR ''0'' CHR ''1'' = Some (a :: 64 dynamic_bitset) \<and>
                dynamic_bitset_string ''0011'' 0 npos CHR ''0'' CHR ''1'' = Some b \<and>
                operator_less a b \<and> \<not> operator_eq a b)"
proof -
  have 1: "(operator_less A B \<and> \<not> operator_less B A \<and> \<not> operator_eq A B) \<or>
          (\<not> operator_less A B \<and> operator_less B A \<and> \<not> operator_eq A B) \<or>
          (\<not> operator_less A B \<and> \<not> operator_less B A \<and> operator_eq A B)"
  proof (cases "m_bits_number A = m_bits_number B")
    case True then show ?thesis using A B by (rule trichotomy_equal_size[rotated 2])
  next
    case False then show ?thesis using trichotomy_other_size[of A B] by blast
  qed
  have 2: "magnitude A = magnitude B \<and> bitset_size A < bitset_size B \<longrightarrow> operator_less A B"
    using equal_magnitude_shorter_less[OF A B] by blast
  have a: "dynamic_bitset_string ''011'' 0 npos CHR ''0'' CHR ''1'' =
      Some (\<lparr>m_blocks = [3], m_bits_number = 3\<rparr> :: 64 dynamic_bitset)"
    by (simp add: dynamic_bitset_string_def init_from_string_def npos_def blocks_required_def
        set_pos_def bitset_size_def block_index_def bit_mask_def bit_index_def zero_block_def Let_def)
  have b: "dynamic_bitset_string ''0011'' 0 npos CHR ''0'' CHR ''1'' =
      Some (\<lparr>m_blocks = [3], m_bits_number = 4\<rparr> :: 64 dynamic_bitset)"
    by (simp add: dynamic_bitset_string_def init_from_string_def npos_def blocks_required_def
        set_pos_def bitset_size_def block_index_def bit_mask_def bit_index_def zero_block_def Let_def)
  have c: "operator_less (\<lparr>m_blocks = [3], m_bits_number = 3\<rparr> :: 64 dynamic_bitset)
             \<lparr>m_blocks = [3], m_bits_number = 4\<rparr>"
    "\<not> operator_eq (\<lparr>m_blocks = [3], m_bits_number = 3\<rparr> :: 64 dynamic_bitset)
             \<lparr>m_blocks = [3], m_bits_number = 4\<rparr>"
    by code_simp+
  have 3: "\<exists>a b. dynamic_bitset_string ''011'' 0 npos CHR ''0'' CHR ''1'' = Some (a :: 64 dynamic_bitset) \<and>
                dynamic_bitset_string ''0011'' 0 npos CHR ''0'' CHR ''1'' = Some b \<and>
                operator_less a b \<and> \<not> operator_eq a b"
    using a b c by blast
  show ?thesis using 1 2 3 by (intro conjI)
qed

theorem order_trichotomy_witness:
  "check_consistency \<lparr>m_blocks = [3 :: 8 word], m_bits_number = 3\<rparr> \<and>
   check_consistency \<lparr>m_blocks = [3 :: 8 word], m_bits_number = 4\<rparr> \<and>
   magnitude \<lparr>m_blocks = [3 :: 8 word], m_bits_number = 3\<rparr> =
     magnitude \<lparr>m_blocks = [3 :: 8 word], m_bits_number = 4\<rparr> \<and>
   bitset_size \<lparr>m_blocks = [3 :: 8 word], m_bits_number = 3\<rparr> <
     bitset_size \<lparr>m_blocks = [3 :: 8 word], m_bits_number = 4\<rparr> \<and>
   operator_less \<lparr>m_blocks = [3 :: 8 word], m_bits_number = 3\<rparr>
     \<lparr>m_blocks = [3], m_bits_number = 4\<rparr> \<and>
   \<not> operator_less \<lparr>m_blocks = [3 :: 8 word], m_bits_number = 4\<rparr>
     \<lparr>m_blocks = [3], m_bits_number = 3\<rparr> \<and>
   \<not> operator_eq \<lparr>m_blocks = [3 :: 8 word], m_bits_number = 3\<rparr>
     \<lparr>m_blocks = [3], m_bits_number = 4\<rparr>"
proof -
  let ?A = "\<lparr>m_blocks = [3 :: 8 word], m_bits_number = 3\<rparr>"
  let ?B = "\<lparr>m_blocks = [3 :: 8 word], m_bits_number = 4\<rparr>"
  have h: "check_consistency ?A" "check_consistency ?B" by code_simp+
  have m: "magnitude ?A = magnitude ?B"
    by (simp add: magnitude_def bitset_size_def test_eq bit_of_def lessThan_nat_numeral
        lessThan_Suc bit_numeral_simps)
  have s: "bitset_size ?A < bitset_size ?B" by code_simp
  note t = order_trichotomy[OF h]
  have l: "operator_less ?A ?B" using t m s by blast
  have n: "\<not> operator_less ?B ?A" "\<not> operator_eq ?A ?B" using t l by blast+
  show ?thesis using h m s l n by (intro conjI)
qed

section \<open>Construction from an initial value\<close>

text \<open>
  Claim C10.  For a block type of 8, 16, 32 or 64 bits, the constructor
  \<open>dynamic_bitset(nbits, init_val)\<close> builds a bitset of size \<open>nbits\<close> whose bit \<open>i\<close>, for every
  \<open>i < nbits\<close>, is bit \<open>i\<close> of \<open>init_val\<close> when \<open>i\<close> is below 64, the width of
  \<open>unsigned long long\<close>, and 0 otherwise.  The bits of \<open>init_val\<close> from \<open>nbits\<close> on are dropped:
  the result satisfies \<open>check_consistency\<close>, so the unused bits of the last block are zero.
\<close>

theorem dynamic_bitset_nbits_correct:
  fixes init_val :: "64 word"
  assumes W: "LENGTH('a::len) \<in> {8, 16, 32, 64}"
  shows "bitset_size (dynamic_bitset_nbits nbits init_val :: 'a dynamic_bitset) = nbits \<and>
         check_consistency (dynamic_bitset_nbits nbits init_val :: 'a dynamic_bitset) \<and>
         (\<forall>i<nbits. test (dynamic_bitset_nbits nbits init_val :: 'a dynamic_bitset) i =
                      Some (i < 64 \<and> bit init_val i))"
proof -
  let ?W = "LENGTH('a)"
  let ?n = "blocks_required ?W nbits"
  let ?z = "\<lparr>m_blocks = replicate ?n (0 :: 'a word), m_bits_number = nbits\<rparr>"
  let ?v = "dynamic_bitset_nbits nbits init_val :: 'a dynamic_bitset"
  show ?thesis
  proof (cases "nbits = 0 \<or> init_val = 0")
    case True
    then have v: "?v = ?z" by (simp add: dynamic_bitset_nbits_def)
    have "check_consistency ?z" by (auto simp: check_consistency_iff)
    moreover have "test ?z i = Some (i < 64 \<and> bit init_val i)" if "i < nbits" for i
    proof -
      have "i div ?W < ?n" using that by (simp add: div_less_blocks_required)
      then show ?thesis using True that by (auto simp: test_eq bit_of_def)
    qed
    ultimately show ?thesis unfolding v by (simp add: bitset_size_def)
  next
    case False
    define rb where "rb = sizeof_unsigned_long_long div sizeof_block_type (zero_block :: 'a word)"
    define bs where "bs = (if rb = 1 then (replicate ?n (0 :: 'a word))[0 := ucast init_val]
                 else fold (\<lambda>i b. b[i := ucast (drop_bit (i * LENGTH('a)) init_val AND
                                            (ucast (one_block :: 'a word) :: 64 word))])
                        [0..<min (length (replicate ?n (0 :: 'a word))) rb] (replicate ?n (0 :: 'a word)))"
    note ib1 = init_val_blocks(1)[OF W, folded rb_def]
    note ib2 = init_val_blocks(2)[OF W, where n = ?n and init_val = init_val, folded rb_def, folded bs_def]
    note ib3 = init_val_blocks(3)[OF W, where n = ?n and init_val = init_val, folded rb_def, folded bs_def]
    let ?u = "\<lparr>m_blocks = bs, m_bits_number = nbits\<rparr> :: 'a dynamic_bitset"
    have v: "?v = sanitize ?u"
      using False by (simp add: dynamic_bitset_nbits_def Let_def rb_def bs_def)
    have len: "length (m_blocks ?u) = blocks_required ?W (m_bits_number ?u)"
      using ib2 by simp
    have cc: "check_consistency (sanitize ?u)" using len by (rule check_consistency_sanitize)
    have "test (sanitize ?u) i = Some (i < 64 \<and> bit init_val i)" if "i < nbits" for i
    proof -
      have d: "i div ?W < ?n" using that by (simp add: div_less_blocks_required)
      have "bit_of (sanitize ?u) i = bit_of ?u i" using len that by (intro bit_of_sanitize) simp_all
      also have "\<dots> = (i div ?W < rb \<and> bit init_val i)"
        using ib3[OF d, of "i mod ?W"] by (simp add: bit_of_def)
      also have "(i div ?W < rb) = (i < 64)"
        using ib1 by (metis div_less_iff_less_mult len_gt_0)
      finally show ?thesis using that by (simp add: test_eq)
    qed
    then show ?thesis unfolding v using cc by (simp add: bitset_size_def)
  qed
qed

theorem dynamic_bitset_nbits_correct_witness:
  "LENGTH(8) \<in> {8, 16, 32, 64 :: nat} \<and>
   bitset_size (dynamic_bitset_nbits 12 0xABCDEF :: 8 dynamic_bitset) = 12 \<and>
   check_consistency (dynamic_bitset_nbits 12 0xABCDEF :: 8 dynamic_bitset) \<and>
   test (dynamic_bitset_nbits 12 0xABCDEF :: 8 dynamic_bitset) 0 = Some True \<and>
   test (dynamic_bitset_nbits 12 0xABCDEF :: 8 dynamic_bitset) 4 = Some False \<and>
   (dynamic_bitset_nbits 12 0xABCDEF :: 8 dynamic_bitset) =
     \<lparr>m_blocks = [0xEF, 0x0D], m_bits_number = 12\<rparr>"
proof -
  have h: "LENGTH(8) \<in> {8, 16, 32, 64 :: nat}" by simp
  note t = dynamic_bitset_nbits_correct[where 'a = 8, OF h, of 12 "0xABCDEF"]
  have 1: "bitset_size (dynamic_bitset_nbits 12 0xABCDEF :: 8 dynamic_bitset) = 12"
    and 2: "check_consistency (dynamic_bitset_nbits 12 0xABCDEF :: 8 dynamic_bitset)"
    and 3: "\<forall>i<12. test (dynamic_bitset_nbits 12 0xABCDEF :: 8 dynamic_bitset) i =
              Some (i < 64 \<and> bit (0xABCDEF :: 64 word) i)"
    using t by blast+
  have 4: "test (dynamic_bitset_nbits 12 0xABCDEF :: 8 dynamic_bitset) 0 = Some True"
    using 3 by simp
  have 5: "test (dynamic_bitset_nbits 12 0xABCDEF :: 8 dynamic_bitset) 4 = Some False"
    using spec[OF 3, of 4] by (simp add: bit_numeral_simps)
  have 6: "(dynamic_bitset_nbits 12 0xABCDEF :: 8 dynamic_bitset) =
     \<lparr>m_blocks = [0xEF, 0x0D], m_bits_number = 12\<rparr>"
    by code_simp
  show ?thesis using h 1 2 4 5 6 by (intro conjI)
qed

section \<open>String round trip\<close>

text \<open>
  Claim C4 as stated fails for the empty bitset and the empty string.  The string constructors
  assert \<open>pos < str.size()\<close>, their documented precondition, and no \<open>pos\<close> satisfies it for an
  empty string: the string of the empty bitset is empty, and construction from it is a failed
  assertion.
\<close>

theorem string_round_trip_empty:
  "check_consistency (dynamic_bitset_default :: 64 dynamic_bitset) \<and>
   to_string (dynamic_bitset_default :: 64 dynamic_bitset) CHR ''0'' CHR ''1'' = [] \<and>
   (dynamic_bitset_string (to_string (dynamic_bitset_default :: 64 dynamic_bitset) CHR ''0'' CHR ''1'')
      0 npos CHR ''0'' CHR ''1'' :: 64 dynamic_bitset option) = None \<and>
   (dynamic_bitset_string [] 0 npos CHR ''0'' CHR ''1'' :: 64 dynamic_bitset option) = None"
  by (simp add: dynamic_bitset_string_def to_string_def dynamic_bitset_default_def bitset_size_def
      check_consistency_def check_unused_bits_def check_size_def extra_bits_number_def bit_index_def
      blocks_required_def)

text \<open>
  Claim C4, amended.  For every non-empty bitset \<open>v\<close> that satisfies \<open>check_consistency\<close> and
  two distinct designator characters, the bitset constructed from \<open>to_string(v)\<close> with the same
  designators equals \<open>v\<close>; and for every non-empty string \<open>s\<close> of designator characters,
  \<open>to_string\<close> of the bitset constructed from \<open>s\<close> is \<open>s\<close>.  The constructor is called with
  \<open>pos = 0\<close> and any \<open>n\<close> that is at least the length of the string, as the default \<open>npos\<close> is.
\<close>

theorem string_round_trip:
  fixes v :: "'a::len dynamic_bitset" and s :: "'c list"
  shows "(check_consistency v \<and> \<not> bitset_empty v \<and> zero \<noteq> one \<and> bitset_size v \<le> n \<longrightarrow>
            (\<exists>w. dynamic_bitset_string (to_string v zero one) 0 n zero one = Some w \<and>
                 operator_eq w v)) \<and>
         (s \<noteq> [] \<and> set s \<subseteq> {zero, one} \<and> length s \<le> n \<longrightarrow>
            (\<exists>w :: 'a dynamic_bitset. dynamic_bitset_string s 0 n zero one = Some w \<and>
                 to_string w zero one = s))"
proof (intro conjI impI)
  assume "check_consistency v \<and> \<not> bitset_empty v \<and> zero \<noteq> one \<and> bitset_size v \<le> n"
  then have cc: "check_consistency v" and ne: "0 < m_bits_number v" and zo: "zero \<noteq> one"
    and n: "m_bits_number v \<le> n"
    by (simp_all add: bitset_empty_def bitset_size_def)
  let ?s = "to_string v zero one" and ?m = "m_bits_number v"
  note ts = to_string_correct[OF cc, where zero = zero and one = one]
  have sz: "?m = min n (length ?s - 0)" using n ts(1) by simp
  have ch: "?s ! k = zero \<or> ?s ! k = one" if "0 \<le> k" "k < 0 + ?m" for k
    using ts(2)[of k] that by simp
  have p: "0 < length ?s" using ne ts(1) by simp
  obtain w :: "'a dynamic_bitset" where w: "init_from_string ?s 0 n zero one = Some w"
    and wn: "m_bits_number w = ?m" and wc: "check_consistency w"
    and wb: "\<forall>i. i < ?m \<longrightarrow> bit_of w i = (?s ! ((0 + ?m - 1) - i) = one)"
    using init_from_string_correct[where 'a = 'a and zero = zero and one = one and str = ?s and pos = 0
        and n = n and sz = ?m, OF p sz ch]
    by blast
  have "bit_of w p = bit_of v p" if "p < ?m" for p
  proof -
    have "bit_of w p = (?s ! (?m - 1 - p) = one)" using wb that by simp
    also have "\<dots> = bit_of v (?m - 1 - (?m - 1 - p))" using ts(2)[of "?m - 1 - p"] that zo by auto
    also have "?m - 1 - (?m - 1 - p) = p" using that by simp
    finally show ?thesis .
  qed
  then have "w = v" using wc cc wn by (intro bitset_eqI) simp_all
  then show "\<exists>w. dynamic_bitset_string ?s 0 n zero one = Some w \<and> operator_eq w v"
    using w ne ts(1) by (simp add: dynamic_bitset_string_def operator_eq_def)
next
  assume "s \<noteq> [] \<and> set s \<subseteq> {zero, one} \<and> length s \<le> n"
  then have ne: "0 < length s" and ch: "\<And>k. k < length s \<Longrightarrow> s ! k = zero \<or> s ! k = one"
    and n: "length s \<le> n"
    by (auto simp: subset_iff)
  let ?m = "length s"
  have ch2: "s ! k = zero \<or> s ! k = one" if "0 \<le> k" "k < 0 + length s" for k
    using ch[of k] that by simp
  have sz: "?m = min n (length s - 0)" using n by simp
  obtain w :: "'a dynamic_bitset" where w: "init_from_string s 0 n zero one = Some w"
    and wn: "m_bits_number w = ?m" and wc: "check_consistency w"
    and wb: "\<forall>i. i < ?m \<longrightarrow> bit_of w i = (s ! ((0 + ?m - 1) - i) = one)"
    using init_from_string_correct[where 'a = 'a and zero = zero and one = one and str = s and pos = 0
        and n = n and sz = ?m, OF ne sz ch2]
    by blast
  note ts = to_string_correct[OF wc, where zero = zero and one = one]
  have "to_string w zero one ! k = s ! k" if "k < ?m" for k
  proof -
    have "bit_of w (?m - 1 - k) = (s ! (?m - 1 - (?m - 1 - k)) = one)" using wb that by simp
    moreover have "?m - 1 - (?m - 1 - k) = k" using that by simp
    ultimately have "bit_of w (?m - 1 - k) = (s ! k = one)" by simp
    then show ?thesis using ts(2)[of k] that wn ch[of k] by auto
  qed
  then have "to_string w zero one = s" using ts(1) wn by (intro nth_equalityI) simp_all
  then show "\<exists>w :: 'a dynamic_bitset. dynamic_bitset_string s 0 n zero one = Some w \<and>
                 to_string w zero one = s"
    using w ne by (simp add: dynamic_bitset_string_def)
qed

theorem string_round_trip_witness:
  "check_consistency \<lparr>m_blocks = [5 :: 8 word], m_bits_number = 3\<rparr> \<and>
   \<not> bitset_empty \<lparr>m_blocks = [5 :: 8 word], m_bits_number = 3\<rparr> \<and>
   CHR ''0'' \<noteq> CHR ''1'' \<and>
   bitset_size \<lparr>m_blocks = [5 :: 8 word], m_bits_number = 3\<rparr> \<le> npos \<and>
   to_string \<lparr>m_blocks = [5 :: 8 word], m_bits_number = 3\<rparr> CHR ''0'' CHR ''1'' = ''101'' \<and>
   dynamic_bitset_string ''101'' 0 npos CHR ''0'' CHR ''1'' =
     Some \<lparr>m_blocks = [5 :: 8 word], m_bits_number = 3\<rparr>"
proof -
  let ?v = "\<lparr>m_blocks = [5 :: 8 word], m_bits_number = 3\<rparr>"
  have h: "check_consistency ?v" "\<not> bitset_empty ?v" "CHR ''0'' \<noteq> CHR ''1''" by code_simp+
  have n: "bitset_size ?v \<le> npos" by (simp add: bitset_size_def npos_def)
  have s: "''101'' \<noteq> []" "set ''101'' \<subseteq> {CHR ''0'', CHR ''1''}" "length ''101'' \<le> npos"
    by (simp_all add: npos_def)
  note t = string_round_trip[where v = ?v and zero = "CHR ''0''" and one = "CHR ''1''" and n = npos
      and s = "''101''"]
  obtain w where w: "dynamic_bitset_string (to_string ?v CHR ''0'' CHR ''1'') 0 npos CHR ''0'' CHR ''1'' = Some w"
    "operator_eq w ?v"
    using t h n by blast
  obtain u :: "8 dynamic_bitset" where u: "dynamic_bitset_string ''101'' 0 npos CHR ''0'' CHR ''1'' = Some u"
    "to_string u CHR ''0'' CHR ''1'' = ''101''"
    using t s by blast
  have ts: "to_string ?v CHR ''0'' CHR ''1'' = ''101''" by code_simp
  have "w = ?v" using w(2) by (simp add: operator_eq_def)
  then have "dynamic_bitset_string ''101'' 0 npos CHR ''0'' CHR ''1'' = Some ?v"
    using w(1) ts by simp
  then show ?thesis using h n ts by (intro conjI)
qed

section \<open>Appending concatenates bits\<close>

text \<open>
  Claim C9.  For every bitset \<open>v\<close> that satisfies \<open>check_consistency\<close>, of size \<open>s\<close> (a multiple of
  the block width or not), and every non-empty sequence of blocks \<open>b0 .. b(n-1)\<close>, the append
  succeeds, the new size is \<open>s + n * bits_per_block\<close>, every bit at a position \<open>p < s\<close> keeps
  its value, and the bit at position \<open>s + k * bits_per_block + j\<close> is bit \<open>j\<close> of \<open>bk\<close>, for
  \<open>k < n\<close> and \<open>j < bits_per_block\<close>.  This holds for the append of a range and of an
  initializer list, and \<open>append(block)\<close> is the append of the one-block sequence.
\<close>

theorem append_concatenates:
  fixes v :: "'a::len dynamic_bitset"
  assumes cc: "check_consistency v" and ne: "blocks \<noteq> []"
  shows "(\<exists>v'. append_range v blocks = Some v' \<and> append_list v blocks = Some v' \<and>
            bitset_size v' = bitset_size v + length blocks * LENGTH('a) \<and>
            (\<forall>p. p < bitset_size v \<longrightarrow> test v' p = test v p) \<and>
            (\<forall>k j. k < length blocks \<and> j < LENGTH('a) \<longrightarrow>
               test v' (bitset_size v + k * LENGTH('a) + j) = Some (bit (blocks ! k) j))) \<and>
         append v b = append_range v [b]"
proof -
  let ?W = "LENGTH('a)" and ?s = "m_bits_number v"
  obtain R where R: "append_range v blocks = Some R"
    and Rn: "m_bits_number R = ?s + length blocks * ?W"
    and old: "\<And>p. p < ?s \<Longrightarrow> bit_of R p = bit_of v p"
    and new: "\<And>k j. k < length blocks \<Longrightarrow> j < ?W \<Longrightarrow> bit_of R (?s + k * ?W + j) = bit (blocks ! k) j"
    using append_range_bits[OF cc ne] by blast
  have l: "append_list v blocks = Some R" using R ne by (simp add: append_list_def)
  have 1: "test R p = test v p" if "p < ?s" for p
    using old[OF that] that Rn by (simp add: test_eq)
  have 2: "test R (?s + k * ?W + j) = Some (bit (blocks ! k) j)" if "k < length blocks" "j < ?W" for k j
  proof -
    have "Suc k * ?W \<le> length blocks * ?W" using that(1) by (intro mult_le_mono1) simp
    then have "?s + k * ?W + j < m_bits_number R" using that(2) Rn by simp
    then show ?thesis using new[OF that] by (simp add: test_eq)
  qed
  have 3: "append v b = append_range v [b]"
    by (simp add: append_def append_range_def Let_def unused_bits_number_def)
  show ?thesis using R l Rn 1 2 3 by (auto simp: bitset_size_def)
qed

theorem append_concatenates_witness:
  "check_consistency \<lparr>m_blocks = [5 :: 8 word], m_bits_number = 3\<rparr> \<and>
   [0xF0, 1 :: 8 word] \<noteq> [] \<and>
   append_range \<lparr>m_blocks = [5 :: 8 word], m_bits_number = 3\<rparr> [0xF0, 1] =
     Some \<lparr>m_blocks = [0x85, 0x0F, 0], m_bits_number = 19\<rparr> \<and>
   test \<lparr>m_blocks = [0x85, 0x0F, 0 :: 8 word], m_bits_number = 19\<rparr> 2 = Some True \<and>
   test \<lparr>m_blocks = [0x85, 0x0F, 0 :: 8 word], m_bits_number = 19\<rparr> 7 = Some True \<and>
   test \<lparr>m_blocks = [0x85, 0x0F, 0 :: 8 word], m_bits_number = 19\<rparr> 12 = Some False"
proof -
  let ?v = "\<lparr>m_blocks = [5 :: 8 word], m_bits_number = 3\<rparr>"
  let ?r = "\<lparr>m_blocks = [0x85, 0x0F, 0 :: 8 word], m_bits_number = 19\<rparr>"
  have h: "check_consistency ?v" "[0xF0, 1 :: 8 word] \<noteq> []" by code_simp+
  have a: "append_range ?v [0xF0, 1] = Some ?r" by code_simp
  have t: "test ?v 2 = Some True" by code_simp
  obtain v' where v': "append_range ?v [0xF0, 1] = Some v'"
    and old: "\<forall>p. p < bitset_size ?v \<longrightarrow> test v' p = test ?v p"
    and new: "\<forall>k j. k < length [0xF0, 1 :: 8 word] \<and> j < LENGTH(8) \<longrightarrow>
               test v' (bitset_size ?v + k * LENGTH(8) + j) = Some (bit ([0xF0, 1 :: 8 word] ! k) j)"
    using append_concatenates[OF h, of 0] by blast
  have e: "v' = ?r" using v' a by simp
  have 1: "test ?r 2 = Some True" using old t unfolding e by (simp add: bitset_size_def)
  have 2: "test ?r 7 = Some True"
    using new[rule_format, of 0 4] unfolding e by (simp add: bitset_size_def bit_numeral_simps)
  have 3: "test ?r 12 = Some False"
    using new[rule_format, of 1 1] unfolding e by (simp add: bitset_size_def bit_numeral_simps)
  show ?thesis using h a 1 2 3 by (intro conjI)
qed

end
